theory Spec2Isabelle
  imports
    Main
    "HOL-Library.Sublist"
    "HOL-Library.Multiset"
    "HOL-Library.Char_ord"
    "HOL-Library.List_Lexorder"
begin

section \<open>Strings, errors and the library calls the program relies on\<close>

text \<open>
  Go strings are byte sequences: a \<^typ>\<open>string\<close> is the list of its bytes, \<open>len\<close> is
  \<^const>\<open>length\<close>, and the order used by \<open>sort.Strings\<close> is the bytewise lexicographic
  order, which is the order of \<^typ>\<open>char list\<close> here. A Go \<open>error\<close> carries its
  message; a result \<open>(v, err)\<close> is a pair whose second component is \<^const>\<open>None\<close> for
  \<open>nil\<close>.
\<close>

datatype error = Error (message: string)

abbreviation NL :: char where "NL \<equiv> CHR 0x0A"
abbreviation ESC :: char where "ESC \<equiv> CHR 0x1B"

text \<open>\<open>strings.HasPrefix\<close> and \<open>strings.Contains\<close>, as loops over the bytes.\<close>

fun HasPrefix :: "string \<Rightarrow> string \<Rightarrow> bool" where
  "HasPrefix s [] = True"
| "HasPrefix [] (p # ps) = False"
| "HasPrefix (c # cs) (p # ps) = (c = p \<and> HasPrefix cs ps)"

fun Contains :: "string \<Rightarrow> string \<Rightarrow> bool" where
  "Contains [] substr = (substr = [])"
| "Contains (c # cs) substr = (HasPrefix (c # cs) substr \<or> Contains cs substr)"

text \<open>\<open>strings.SplitN(s, "\n", 2)\<close>: at most two pieces, cut at the first newline.\<close>

definition SplitN2 :: "string \<Rightarrow> string list" where
  "SplitN2 s =
     (if NL \<in> set s
      then [takeWhile (\<lambda>c. c \<noteq> NL) s, tl (dropWhile (\<lambda>c. c \<noteq> NL) s)]
      else [s])"

text \<open>\<open>strings.Split(s, "\n")\<close>: every piece between newlines, empty pieces included.\<close>

fun Split :: "string \<Rightarrow> string list" where
  "Split [] = [ [] ]"
| "Split (c # cs) =
     (if c = NL then [] # Split cs
      else (case Split cs of l # ls \<Rightarrow> (c # l) # ls | [] \<Rightarrow> [ [c] ]))"

text \<open>
  \<open>strings.TrimSpace\<close> removes the white space of Unicode at both ends: the six ASCII
  characters \<open>\t \n \v \f \r\<close> and blank, U+0085, U+00A0, U+1680, U+2000 to U+200A,
  U+2028, U+2029, U+202F, U+205F and U+3000, here in their UTF-8 encodings.
\<close>

definition space_runes :: "string list" where
  "space_runes =
     [ [CHR 0x09], [CHR 0x0A], [CHR 0x0B], [CHR 0x0C], [CHR 0x0D], [CHR 0x20],
      [CHR 0xC2, CHR 0x85], [CHR 0xC2, CHR 0xA0], [CHR 0xE1, CHR 0x9A, CHR 0x80],
      [CHR 0xE2, CHR 0x80, CHR 0x80], [CHR 0xE2, CHR 0x80, CHR 0x81],
      [CHR 0xE2, CHR 0x80, CHR 0x82], [CHR 0xE2, CHR 0x80, CHR 0x83],
      [CHR 0xE2, CHR 0x80, CHR 0x84], [CHR 0xE2, CHR 0x80, CHR 0x85],
      [CHR 0xE2, CHR 0x80, CHR 0x86], [CHR 0xE2, CHR 0x80, CHR 0x87],
      [CHR 0xE2, CHR 0x80, CHR 0x88], [CHR 0xE2, CHR 0x80, CHR 0x89],
      [CHR 0xE2, CHR 0x80, CHR 0x8A], [CHR 0xE2, CHR 0x80, CHR 0xA8],
      [CHR 0xE2, CHR 0x80, CHR 0xA9], [CHR 0xE2, CHR 0x80, CHR 0xAF],
      [CHR 0xE2, CHR 0x81, CHR 0x9F], [CHR 0xE3, CHR 0x80, CHR 0x80] ]"

function TrimLeft :: "string \<Rightarrow> string" where
  "TrimLeft s =
     (case find (\<lambda>r. prefix r s) space_runes of
        None \<Rightarrow> s
      | Some r \<Rightarrow> TrimLeft (drop (length r) s))"
  by pat_completeness auto
termination
proof (relation "measure length", goal_cases)
  case 1
  show ?case by simp
next
  case (2 s r)
  then have "r \<in> set space_runes" and "prefix r s"
    by (auto simp: find_Some_iff)
  then have "r \<noteq> []" and "length r \<le> length s"
    by (auto simp: space_runes_def prefix_def)
  then show ?case by (cases s) auto
qed

function TrimRight :: "string \<Rightarrow> string" where
  "TrimRight s =
     (case find (\<lambda>r. suffix r s) space_runes of
        None \<Rightarrow> s
      | Some r \<Rightarrow> TrimRight (take (length s - length r) s))"
  by pat_completeness auto
termination
proof (relation "measure length", goal_cases)
  case 1
  show ?case by simp
next
  case (2 s r)
  then have "r \<in> set space_runes" and "suffix r s"
    by (auto simp: find_Some_iff)
  then have "r \<noteq> []" and "length r \<le> length s"
    by (auto simp: space_runes_def suffix_def)
  then show ?case by (cases s) auto
qed

definition TrimSpace :: "string \<Rightarrow> string" where
  "TrimSpace s = TrimRight (TrimLeft s)"

declare TrimLeft.simps [simp del] TrimRight.simps [simp del]

text \<open>\<open>strings.ReplaceAll(s, "\n", new)\<close>.\<close>

fun ReplaceAll_NL :: "string \<Rightarrow> string \<Rightarrow> string" where
  "ReplaceAll_NL [] new = []"
| "ReplaceAll_NL (c # cs) new = (if c = NL then new @ ReplaceAll_NL cs new else c # ReplaceAll_NL cs new)"

section \<open>The git queries\<close>

text \<open>
  \<open>exec.Command("git", "-C", path, args...).Output()\<close> is the boundary to git: a
  function from the repository path and the arguments after \<open>-C path\<close> to the captured
  standard output, or to the error of a failed run.
\<close>

type_synonym git = "string \<Rightarrow> string list \<Rightarrow> error + string"

definition getCurrentBranch :: "git \<Rightarrow> string \<Rightarrow> string \<times> error option" where
  "getCurrentBranch git path =
     (case git path [''rev-parse'', ''--abbrev-ref'', ''HEAD''] of
        Inl err \<Rightarrow> ([], Some err)
      | Inr out \<Rightarrow> (TrimSpace out, None))"

definition getDefaultBranch :: "git \<Rightarrow> string \<Rightarrow> string \<times> error option" where
  "getDefaultBranch git path =
     (case git path [''config'', ''get'', ''init.defaultbranch''] of
        Inl err \<Rightarrow> ([], Some err)
      | Inr out \<Rightarrow>
          (let res = TrimSpace out in
           if res = [] then (''main'', None) else (res, None)))"

definition getLocalBranches :: "git \<Rightarrow> string \<Rightarrow> string list \<times> error option" where
  "getLocalBranches git path =
     (case git path [''branch'', ''--format'', ''%(refname:short)''] of
        Inl err \<Rightarrow> ([], Some err)
      | Inr out \<Rightarrow> (filter (\<lambda>n. n \<noteq> []) (map TrimSpace (Split out)), None))"

definition isDirty :: "git \<Rightarrow> string \<Rightarrow> bool \<times> error option" where
  "isDirty git path =
     (case git path [''status'', ''--porcelain''] of
        Inl err \<Rightarrow> (False, Some err)
      | Inr out \<Rightarrow> (length out > 0, None))"

definition isClean :: "git \<Rightarrow> string \<Rightarrow> bool \<times> error option" where
  "isClean git path =
     (case git path [''status'', ''--porcelain''] of
        Inl err \<Rightarrow> (False, Some err)
      | Inr out \<Rightarrow> (length out = 0, None))"

datatype RemoteSyncState = BehindRemote | SyncRemote | AheadRemote

text \<open>
  The three values of \<open>RemoteSyncState\<close> (\<open>-1\<close>, \<open>0\<close> and \<open>1\<close> in the source). The first
  line is element \<open>0\<close> of the split, which always has one.
\<close>

definition getRemoteSyncStatus :: "git \<Rightarrow> string \<Rightarrow> RemoteSyncState \<times> error option" where
  "getRemoteSyncStatus git path =
     (case git path [''status'', ''--porcelain'', ''--branch''] of
        Inl err \<Rightarrow> (SyncRemote, Some err)
      | Inr out \<Rightarrow>
          (let firstLine = hd (SplitN2 out) in
           if \<not> HasPrefix firstLine ''##''
           then (SyncRemote,
                 Some (Error (''first line `'' @ firstLine @ ''` does not start with expected `##`'')))
           else if Contains firstLine ''[behind'' then (BehindRemote, None)
           else if Contains firstLine ''[ahead'' then (AheadRemote, None)
           else (SyncRemote, None)))"

section \<open>The directory tree and \<open>filepath.Walk\<close>\<close>

text \<open>
  The tree below the working directory. A node is what \<open>os.Lstat\<close> sees: a plain file,
  a symbolic link (the flag says whether \<open>os.Stat\<close>, which follows the link, finds a
  directory behind it), or a directory with a flag telling whether its entries can be
  listed, and its entries by name.
\<close>

datatype fsnode = File | Symlink bool | Dir bool "(string \<times> fsnode) list"

text \<open>\<open>info.IsDir()\<close> of an \<open>os.Lstat\<close> result, and of an \<open>os.Stat\<close> result.\<close>

fun IsDir :: "fsnode \<Rightarrow> bool" where
  "IsDir (Dir readable entries) = True"
| "IsDir _ = False"

fun Stat_IsDir :: "fsnode \<Rightarrow> bool" where
  "Stat_IsDir (Dir readable entries) = True"
| "Stat_IsDir (Symlink to_dir) = to_dir"
| "Stat_IsDir File = False"

text \<open>
  \<open>filepath.Join(path, name)\<close> for a cleaned \<open>path\<close> and a single name read from a
  directory: only the root \<open>/\<close> already ends in the separator.
\<close>

definition Join :: "string \<Rightarrow> string \<Rightarrow> string" where
  "Join path name = (if path = ''/'' then path @ name else path @ ''/'' @ name)"

text \<open>
  \<open>isGitRepo\<close> stats \<open>Join path ".git"\<close>; here it is given the node found at \<open>path\<close>
  and looks the name up among its entries. A failing \<open>os.Stat\<close> (no such entry, or
  \<open>path\<close> is no directory) gives false.
\<close>

definition isGitRepo :: "fsnode \<Rightarrow> bool" where
  "isGitRepo node =
     (case node of
        Dir readable entries \<Rightarrow>
          (case map_of entries ''.git'' of
             None \<Rightarrow> False
           | Some info \<Rightarrow> Stat_IsDir info)
      | _ \<Rightarrow> False)"

text \<open>
  What a \<open>WalkFunc\<close> returns besides \<open>nil\<close>: the sentinel \<open>filepath.SkipDir\<close>, or
  an error that stops the walk.
\<close>

datatype walk_err = SkipDir | Fail error

text \<open>
  \<open>filepath.walk\<close> of the Go library (the version that lists a directory before it
  calls the function on it; \<open>SkipAll\<close>, which this program never returns, left out).
  Names are visited in sorted order. The state \<open>'s\<close> is what the function closes over.
  An entry that the directory lists is taken to answer \<open>os.Lstat\<close>, and so is the root;
  a directory that cannot be listed gives the same error wherever it is.
\<close>

function walk ::
    "(string \<Rightarrow> fsnode \<Rightarrow> error option \<Rightarrow> 's \<Rightarrow> walk_err option \<times> 's)
      \<Rightarrow> string \<Rightarrow> fsnode \<Rightarrow> 's \<Rightarrow> walk_err option \<times> 's"
  and walk_names ::
    "(string \<Rightarrow> fsnode \<Rightarrow> error option \<Rightarrow> 's \<Rightarrow> walk_err option \<times> 's)
      \<Rightarrow> string \<Rightarrow> (string \<times> fsnode) list \<Rightarrow> 's \<Rightarrow> walk_err option \<times> 's"
where
  "walk walkFn path File s = walkFn path File None s"
| "walk walkFn path (Symlink to_dir) s = walkFn path (Symlink to_dir) None s"
| "walk walkFn path (Dir readable entries) s =
     (let err = (if readable then None else Some (Error ''permission denied''));
          (err1, s1) = walkFn path (Dir readable entries) err s
      in if err \<noteq> None \<or> err1 \<noteq> None then (err1, s1)
         else walk_names walkFn path (sort_key fst entries) s1)"
| "walk_names walkFn path [] s = (None, s)"
| "walk_names walkFn path ((name, fileInfo) # names) s =
     (case walk walkFn (Join path name) fileInfo s of
        (None, s') \<Rightarrow> walk_names walkFn path names s'
      | (Some err, s') \<Rightarrow>
          if \<not> IsDir fileInfo \<or> err \<noteq> SkipDir then (Some err, s')
          else walk_names walkFn path names s')"
  by pat_completeness auto
termination
proof (relation "measure (\<lambda>x. case x of
                    Inl (_, _, n, _) \<Rightarrow> 2 * size n
                  | Inr (_, _, es, _) \<Rightarrow> 2 * size_list (size_prod (\<lambda>_. 0) size) es + 1)",
       goal_cases)
  case (2 walkFn path readable entries s err x xa y)
  have "size_list (size_prod (\<lambda>_. 0) size) (sort_key fst entries)
        = size_list (size_prod (\<lambda>_. 0) size) entries"
    unfolding size_list_conv_sum_list
    by (metis length_sort mset_map mset_sort sum_mset_sum_list)
  then show ?case by simp
qed auto

text \<open>\<open>filepath.Walk\<close>: a \<open>SkipDir\<close> that reaches the top is not an error.\<close>

definition Walk ::
    "string \<Rightarrow> fsnode
      \<Rightarrow> (string \<Rightarrow> fsnode \<Rightarrow> error option \<Rightarrow> 's \<Rightarrow> walk_err option \<times> 's)
      \<Rightarrow> 's \<Rightarrow> error option \<times> 's" where
  "Walk root info fn s =
     (case walk fn root info s of
        (None, s') \<Rightarrow> (None, s')
      | (Some SkipDir, s') \<Rightarrow> (None, s')
      | (Some (Fail err), s') \<Rightarrow> (Some err, s'))"

section \<open>Filters and discovery\<close>

type_synonym filter = "string \<Rightarrow> bool \<times> error option"

text \<open>The filter built for \<open>-branch\<close> (the closure in \<open>main\<close>).\<close>

definition branchFilter :: "git \<Rightarrow> string \<Rightarrow> filter" where
  "branchFilter git branch path =
     (case getCurrentBranch git path of (b, err) \<Rightarrow> (b = branch, err))"

text \<open>
  The loop over the filters inside the walk function: true when it runs to its end,
  false when it leaves with \<open>SkipDir\<close>.
\<close>

fun check_filters :: "filter list \<Rightarrow> string \<Rightarrow> bool" where
  "check_filters [] path = True"
| "check_filters (f # fs) path =
     (case f path of (r, err) \<Rightarrow>
        if err \<noteq> None \<or> \<not> r then False else check_filters fs path)"

text \<open>The function \<open>main\<close> hands to \<open>filepath.Walk\<close>; its state is \<open>gitRepos\<close>.\<close>

definition walkFn ::
    "filter list \<Rightarrow> string \<Rightarrow> fsnode \<Rightarrow> error option \<Rightarrow> string list
      \<Rightarrow> walk_err option \<times> string list" where
  "walkFn filters path info err gitRepos =
     (case err of
        Some e \<Rightarrow> (Some (Fail e), gitRepos)
      | None \<Rightarrow>
          if IsDir info \<and> isGitRepo info
          then (if check_filters filters path
                then (Some SkipDir, gitRepos @ [path])
                else (Some SkipDir, gitRepos))
          else (None, gitRepos))"

text \<open>Walking from \<open>cwd\<close> and sorting what was found (lines 309 to 332 of \<open>main\<close>).\<close>

definition discover :: "filter list \<Rightarrow> string \<Rightarrow> fsnode \<Rightarrow> error + string list" where
  "discover filters cwd root =
     (case Walk cwd root (walkFn filters) [] of
        (Some err, gitRepos) \<Rightarrow> Inl err
      | (None, gitRepos) \<Rightarrow> Inr (sort gitRepos))"

text \<open>
  The vocabulary of the discovery claims. A name a directory can list is not empty, has
  no separator in it and is neither \<open>.\<close> nor \<open>..\<close>; the names of one directory are
  distinct. \<open>dirs\<close> lists every directory of the tree with its path and the
  directories above it, from the root down. A path is a descendant of another when it
  continues it after a separator.
\<close>

definition valid_name :: "string \<Rightarrow> bool" where
  "valid_name name = (name \<noteq> [] \<and> CHR ''/'' \<notin> set name \<and> name \<noteq> ''.'' \<and> name \<noteq> ''..'')"

fun wf_fs :: "fsnode \<Rightarrow> bool" where
  "wf_fs (Dir readable entries) =
     (distinct (map fst entries) \<and> (\<forall>(name, child) \<in> set entries. valid_name name \<and> wf_fs child))"
| "wf_fs _ = True"

fun dirs :: "string \<Rightarrow> fsnode list \<Rightarrow> fsnode \<Rightarrow> (string \<times> fsnode \<times> fsnode list) list" where
  "dirs path parents (Dir readable entries) =
     (path, Dir readable entries, parents) #
     concat (map (\<lambda>(name, child). dirs (Join path name) (parents @ [Dir readable entries]) child)
                 entries)"
| "dirs path parents _ = []"

definition dir_prefix :: "string \<Rightarrow> string" where
  "dir_prefix path = (if path = ''/'' then path else path @ ''/'')"

definition is_descendant :: "string \<Rightarrow> string \<Rightarrow> bool" where
  "is_descendant q p = (q \<noteq> p \<and> prefix (dir_prefix p) q)"

text \<open>What it means for a path to pass every filter of a set.\<close>

definition passes_all :: "filter set \<Rightarrow> string \<Rightarrow> bool" where
  "passes_all F path = (\<forall>f \<in> F. f path = (True, None))"

text \<open>
  A filter with every error replaced by the plain answer false, to state that the walk
  cannot tell the two apart.
\<close>

definition as_false :: "filter \<Rightarrow> filter" where
  "as_false f path = (case f path of (r, None) \<Rightarrow> (r, None) | (r, Some err) \<Rightarrow> (False, None))"

text \<open>
  Devices for the proofs about the walk: the repositories the walk reports below a
  node when nothing stops it, the condition under which it does stop (it reaches a
  directory it cannot list), and the shape of the paths below a directory.
\<close>

fun repos_below :: "filter list \<Rightarrow> string \<Rightarrow> fsnode \<Rightarrow> string list" where
  "repos_below filters path (Dir readable entries) =
     (if isGitRepo (Dir readable entries)
      then (if check_filters filters path then [path] else [])
      else concat (map (\<lambda>(name, child). repos_below filters (Join path name) child) entries))"
| "repos_below filters path File = []"
| "repos_below filters path (Symlink to_dir) = []"

fun unreadable_below :: "fsnode \<Rightarrow> bool" where
  "unreadable_below (Dir readable entries) =
     (\<not> readable \<or>
      (\<not> isGitRepo (Dir readable entries) \<and> (\<exists>(name, child) \<in> set entries. unreadable_below child)))"
| "unreadable_below File = False"
| "unreadable_below (Symlink to_dir) = False"

definition names_repos :: "filter list \<Rightarrow> string \<Rightarrow> (string \<times> fsnode) list \<Rightarrow> string multiset" where
  "names_repos filters path entries =
     (\<Sum>(name, child) \<leftarrow> entries. mset (repos_below filters (Join path name) child))"

definition below_name :: "string \<Rightarrow> string \<Rightarrow> string \<Rightarrow> bool" where
  "below_name path name q = (\<exists>s. q = dir_prefix path @ name @ s \<and> (s = [] \<or> hd s = CHR ''/''))"

definition reach :: "string \<Rightarrow> string \<Rightarrow> bool" where
  "reach p q = (q = p \<or> prefix (dir_prefix p) q)"

section \<open>Relative paths and padding\<close>

text \<open>
  \<open>filepath.Rel(basepath, targpath)\<close> on what the program passes: cleaned absolute
  paths with \<open>targpath\<close> at or below \<open>basepath\<close>, for which the result is \<open>.\<close> or the
  rest of \<open>targpath\<close>. Every path the walk reports is such a path (lemma
  \<open>discover_Rel\<close> below). Go answers other pairs of absolute paths with a path through
  \<open>..\<close>; no call in this program reaches them, and here they get the error return,
  which keeps the fallback branch of the callers in the model.
\<close>

definition Rel :: "string \<Rightarrow> string \<Rightarrow> string \<times> error option" where
  "Rel basepath targpath =
     (if targpath = basepath then (''.'', None)
      else if prefix (dir_prefix basepath) targpath
      then (drop (length (dir_prefix basepath)) targpath, None)
      else ([], Some (Error (''Rel: cannot make '' @ targpath @ '' relative to '' @ basepath))))"

text \<open>
  \<open>utf8.RuneCountInString\<close>, which \<open>fmt\<close> uses to pad: the number of bytes the first
  rune of a string takes (one for a byte that starts no valid encoding), and the count.
\<close>

definition first_byte :: "nat \<Rightarrow> (nat \<times> nat \<times> nat) option" where
  "first_byte c =
     (if 0xC2 \<le> c \<and> c \<le> 0xDF then Some (2, 0x80, 0xBF)
      else if c = 0xE0 then Some (3, 0xA0, 0xBF)
      else if 0xE1 \<le> c \<and> c \<le> 0xEC then Some (3, 0x80, 0xBF)
      else if c = 0xED then Some (3, 0x80, 0x9F)
      else if 0xEE \<le> c \<and> c \<le> 0xEF then Some (3, 0x80, 0xBF)
      else if c = 0xF0 then Some (4, 0x90, 0xBF)
      else if 0xF1 \<le> c \<and> c \<le> 0xF3 then Some (4, 0x80, 0xBF)
      else if c = 0xF4 then Some (4, 0x80, 0x8F)
      else None)"

definition in_range :: "nat \<Rightarrow> nat \<Rightarrow> char \<Rightarrow> bool" where
  "in_range lo hi c = (lo \<le> of_char c \<and> (of_char c :: nat) \<le> hi)"

definition rune_size :: "char \<Rightarrow> string \<Rightarrow> nat" where
  "rune_size c rest =
     (if (of_char c :: nat) < 0x80 then 1
      else case first_byte (of_char c) of
        None \<Rightarrow> 1
      | Some (n, lo, hi) \<Rightarrow>
          if Suc (length rest) < n then 1
          else if \<not> in_range lo hi (rest ! 0) then 1
          else if n = 2 then 2
          else if \<not> in_range 0x80 0xBF (rest ! 1) then 1
          else if n = 3 then 3
          else if \<not> in_range 0x80 0xBF (rest ! 2) then 1
          else 4)"

function RuneCountInString :: "string \<Rightarrow> nat" where
  "RuneCountInString [] = 0"
| "RuneCountInString (c # rest) = Suc (RuneCountInString (drop (rune_size c rest - 1) rest))"
  by pat_completeness auto
termination
  by (relation "measure length") auto

text \<open>\<open>fmt.Sprintf("%-" + width + "s", s)\<close>: blanks after \<open>s\<close> up to \<open>width\<close> runes.\<close>

definition pad_right :: "nat \<Rightarrow> string \<Rightarrow> string" where
  "pad_right width s = s @ replicate (width - RuneCountInString s) CHR '' ''"

section \<open>The two actions and the result aggregator\<close>

text \<open>What the tasks share: the collected results and the exit code of the run.\<close>

record agg =
  results :: "string list"
  finalExitCode :: int

text \<open>
  \<open>cmd.Run()\<close> of the user's command in a repository: the combined output and the
  error, which is an \<open>*exec.ExitError\<close> with its exit code or any other error.
\<close>

datatype run_err = ExitError int | OtherError error

type_synonym run = "string \<Rightarrow> string list \<Rightarrow> string \<times> run_err option"

text \<open>\<open>runCommand\<close>; \<open>command[0]\<close> of an empty command panics, which is \<^const>\<open>None\<close>.\<close>

definition runCommand :: "run \<Rightarrow> string \<Rightarrow> string list \<Rightarrow> (string \<times> int) option" where
  "runCommand run path command =
     (case command of
        [] \<Rightarrow> None
      | name # arg \<Rightarrow>
          (case run path (name # arg) of
             (out, None) \<Rightarrow> Some (out, 0)
           | (out, Some (ExitError exitCode)) \<Rightarrow> Some (out, exitCode)
           | (out, Some (OtherError e)) \<Rightarrow> Some (out, 1)))"

definition checkmark :: string where
  "checkmark = [CHR 0xE2, CHR 0x9C, CHR 0x85, CHR 0xEF, CHR 0xB8, CHR 0x8F]"

definition crossmark :: string where
  "crossmark = [CHR 0xE2, CHR 0x9D, CHR 0x8C]"

definition processRepo :: "run \<Rightarrow> string \<Rightarrow> string \<Rightarrow> string list \<Rightarrow> agg \<Rightarrow> agg option" where
  "processRepo run path cwd command st =
     (let relPath = (case Rel cwd path of (r, None) \<Rightarrow> r | (r, Some err) \<Rightarrow> path)
      in case runCommand run path command of
        None \<Rightarrow> None
      | Some (output, exitCode) \<Rightarrow>
          (let status = (if exitCode \<noteq> 0 then crossmark else checkmark);
               st1 = (if exitCode \<noteq> 0 then st\<lparr>finalExitCode := 1\<rparr> else st);
               result = [ESC] @ ''[1m'' @ status @ '' '' @ relPath @ '':'' @ [ESC] @ ''[0m'' @ [NL]
                        @ ''  '' @ ReplaceAll_NL output ([NL] @ ''  '')
           in Some (st1\<lparr>results := results st1 @ [result]\<rparr>)))"

text \<open>
  \<open>statusRepo\<close> in two steps: the five queries with their fallbacks (\<open>inspect\<close>), and
  the line built from them (\<open>render\<close>).
\<close>

record status_info =
  relPath :: string
  currentBranch :: string
  defaultBranch :: string
  remoteSync :: RemoteSyncState
  clean :: bool
  localBranches :: "string list"

definition inspect :: "git \<Rightarrow> string \<Rightarrow> string \<Rightarrow> status_info" where
  "inspect git path cwd =
     (let rel = (case Rel cwd path of (r, None) \<Rightarrow> r | (r, Some err) \<Rightarrow> path);
          cur = (case getCurrentBranch git path of
                   (b, None) \<Rightarrow> b | (b, Some err) \<Rightarrow> ''!'' @ message err);
          def = (case getDefaultBranch git path of
                   (b, None) \<Rightarrow> b | (b, Some err) \<Rightarrow> ''main'');
          sync = (case getRemoteSyncStatus git path of
                    (r, None) \<Rightarrow> r | (r, Some err) \<Rightarrow> SyncRemote);
          cl = (case isClean git path of
                  (c, None) \<Rightarrow> c | (c, Some err) \<Rightarrow> False);
          others = sort (filter (\<lambda>x. \<not> (x = cur)) (fst (getLocalBranches git path)))
      in \<lparr>relPath = rel, currentBranch = cur, defaultBranch = def, remoteSync = sync,
          clean = cl, localBranches = others\<rparr>)"

definition render :: "nat \<Rightarrow> status_info \<Rightarrow> string" where
  "render width i =
     (let branches0 =
            (if currentBranch i = defaultBranch i
             then '' ['' @ [ESC] @ ''[1;32m'' else '' ['' @ [ESC] @ ''[1;31m'')
            @ currentBranch i @ [ESC] @ ''[0m]'';
          status =
            (if \<not> clean i then [CHR 0xF0, CHR 0x9F, CHR 0x93, CHR 0x9D] else [])
            @ (case remoteSync i of
                 BehindRemote \<Rightarrow> [CHR 0xF0, CHR 0x9F, CHR 0x98, CHR 0xB0]
               | AheadRemote \<Rightarrow>
                   [CHR 0xF0, CHR 0x9F, CHR 0x8F, CHR 0x8E, CHR 0xF0, CHR 0x9F, CHR 0x92, CHR 0xA8]
               | SyncRemote \<Rightarrow> []);
          branches1 =
            (if length status > 0
             then branches0 @ [ESC] @ ''[31m('' @ [ESC] @ ''[0m'' @ status
                  @ [ESC] @ ''[31m)'' @ [ESC] @ ''[0m''
             else branches0);
          branches =
            branches1 @ concat (map (\<lambda>name. '' ['' @ [ESC] @ ''[34m'' @ name @ [ESC] @ ''[0m]'')
                                    (localBranches i))
      in [ESC] @ ''[1m'' @ pad_right width (relPath i) @ [ESC] @ ''[0m'' @ branches)"

definition statusRepo :: "git \<Rightarrow> string \<Rightarrow> string \<Rightarrow> nat \<Rightarrow> agg \<Rightarrow> agg" where
  "statusRepo git path cwd width st =
     st\<lparr>results := results st @ [render width (inspect git path cwd)]\<rparr>"

text \<open>
  The width computed in the status action of \<open>main\<close>: the loop runs over the sorted
  \<open>gitRepos\<close>, and falls back to the path of the task at hand when \<open>Rel\<close> fails.
\<close>

definition longestName :: "string \<Rightarrow> string list \<Rightarrow> string \<Rightarrow> nat" where
  "longestName cwd gitRepos path =
     fold (\<lambda>repo longest.
             let rel = (case Rel cwd repo of (r, None) \<Rightarrow> r | (r, Some err) \<Rightarrow> path)
             in if length rel > longest then length rel else longest)
          gitRepos 0"

section \<open>The program\<close>

record config =
  flag_parallel :: int
  flag_branch :: string
  flag_dirty :: bool
  flag_clean :: bool
  flag_help :: bool
  flag_status :: bool
  flag_args :: "string list"

text \<open>
  The world the program runs in: the working directory and its resolution, the tree
  below it, git, the runner of the user's command, and for each repository the time at
  which its task appends its result. The answers of git and of the command are taken
  to be the same whenever they are asked during one run.

  The tasks are goroutines started in the order of \<open>gitRepos\<close>. What a task does to
  the shared state (it may set \<open>finalExitCode\<close> to 1, and it appends its result under
  the mutex) is one step here, and the steps are taken in the order of the finishing
  times, earlier started tasks first among equal times. Setting the code to 1 commutes
  with every other step, so nothing is lost by joining it to the append. How many tasks
  run at once, which the channel \<open>sem\<close> bounds, is not part of this model: of the
  limit \<open>-parallel\<close> only the cases remain in which \<open>make\<close> panics (a negative
  capacity) or the first send blocks for ever (capacity zero and something to send).
  The counter \<open>remainingTasks\<close> only feeds the progress ticker and is left out with it.
\<close>

record env =
  env_Getwd :: "string \<times> error option"
  env_EvalSymlinks :: "string \<Rightarrow> string \<times> error option"
  env_tree :: fsnode
  env_git :: git
  env_run :: run
  env_finish :: "string \<Rightarrow> nat"

definition mkFilters :: "config \<Rightarrow> git \<Rightarrow> filter list" where
  "mkFilters c git =
     (if flag_branch c \<noteq> [] then [branchFilter git (flag_branch c)] else [])
     @ (if flag_dirty c then [isDirty git] else [])
     @ (if flag_clean c then [isClean git] else [])"

text \<open>\<open>applyAction\<close>, chosen by \<open>-status\<close>.\<close>

definition applyAction ::
    "config \<Rightarrow> env \<Rightarrow> string list \<Rightarrow> string \<Rightarrow> string \<Rightarrow> agg \<Rightarrow> agg option" where
  "applyAction c e gitRepos path cwd st =
     (if flag_status c
      then Some (statusRepo (env_git e) path cwd (longestName cwd gitRepos path) st)
      else processRepo (env_run e) path cwd (flag_args c) st)"

text \<open>
  The steps of the tasks, in the order in which they finish; a panic in one ends the
  program.
\<close>

fun run_tasks :: "(string \<Rightarrow> agg \<Rightarrow> agg option) \<Rightarrow> string list \<Rightarrow> agg \<Rightarrow> agg option" where
  "run_tasks action [] st = Some st"
| "run_tasks action (repo # repos) st =
     (case action repo st of
        None \<Rightarrow> None
      | Some st' \<Rightarrow> run_tasks action repos st')"

text \<open>The last loop of \<open>main\<close>: the sorted results, each with \<open>fmt.Println\<close>.\<close>

definition print_results :: "string list \<Rightarrow> string" where
  "print_results rs = concat (map (\<lambda>result. result @ [NL]) (sort rs))"

text \<open>
  How a run ends: \<open>os.Exit\<close> with a code after what \<open>main\<close> itself wrote to standard
  output (the frames of the progress ticker are left out), a panic, or never.
\<close>

datatype outcome = Exit int string | Panic | Blocked

definition clear_line :: string where
  "clear_line = [CHR 0x0D] @ replicate 22 CHR '' '' @ [CHR 0x0D]"

definition main :: "config \<Rightarrow> env \<Rightarrow> outcome" where
  "main c e =
     (if flag_help c then Exit 0 (''Usage: gits [options] command [args...]'' @ [NL])
      else
        let filters = mkFilters c (env_git e) in
        if \<not> flag_status c \<and> length (flag_args c) = 0
        then Exit 1 (''No command provided'' @ [NL])
        else
          case env_Getwd e of
            (cwd0, Some err) \<Rightarrow>
              Exit 1 (''Error getting current working directory: '' @ message err @ [NL])
          | (cwd0, None) \<Rightarrow>
              (case env_EvalSymlinks e cwd0 of
                 (cwd, Some err) \<Rightarrow> Exit 1 (''Error resolving symlink: '' @ message err @ [NL])
               | (cwd, None) \<Rightarrow>
                   (case discover filters cwd (env_tree e) of
                      Inl err \<Rightarrow> Exit 1 (''Error walking the path: '' @ message err @ [NL])
                    | Inr gitRepos \<Rightarrow>
                        if flag_parallel c < 0 then Panic
                        else if flag_parallel c = 0 \<and> gitRepos \<noteq> [] then Blocked
                        else
                          (case run_tasks (\<lambda>repo. applyAction c e gitRepos repo cwd)
                                          (sort_key (env_finish e) gitRepos)
                                          \<lparr>results = [], finalExitCode = 0\<rparr> of
                             None \<Rightarrow> Panic
                           | Some st \<Rightarrow>
                               Exit (finalExitCode st) (clear_line @ print_results (results st))))))"

text \<open>
  The vocabulary of the claims about a whole run. \<open>discovery\<close> is what \<open>main\<close> has when
  it starts the tasks, the resolved working directory and the sorted repositories, or
  the fatal error that ended the run before (working directory, symlink resolution,
  walk). \<open>task_failed\<close> says that the task of a repository is a command task whose
  command ended with a code other than zero; \<open>task_result\<close> is the text the task of a
  repository appends to the results (read off the action applied to the empty
  collection).
\<close>

definition discovery :: "config \<Rightarrow> env \<Rightarrow> error + string \<times> string list" where
  "discovery c e =
     (case env_Getwd e of
        (cwd0, Some err) \<Rightarrow> Inl err
      | (cwd0, None) \<Rightarrow>
          (case env_EvalSymlinks e cwd0 of
             (cwd, Some err) \<Rightarrow> Inl err
           | (cwd, None) \<Rightarrow>
               (case discover (mkFilters c (env_git e)) cwd (env_tree e) of
                  Inl err \<Rightarrow> Inl err
                | Inr gitRepos \<Rightarrow> Inr (cwd, gitRepos))))"

definition task_failed :: "config \<Rightarrow> env \<Rightarrow> string \<Rightarrow> bool" where
  "task_failed c e path =
     (\<not> flag_status c \<and>
      (case runCommand (env_run e) path (flag_args c) of
         Some (output, exitCode) \<Rightarrow> exitCode \<noteq> 0
       | None \<Rightarrow> False))"

definition task_result :: "config \<Rightarrow> env \<Rightarrow> string list \<Rightarrow> string \<Rightarrow> string \<Rightarrow> string" where
  "task_result c e gitRepos cwd path =
     (case applyAction c e gitRepos path cwd \<lparr>results = [], finalExitCode = 0\<rparr> of
        Some st \<Rightarrow> concat (results st)
      | None \<Rightarrow> [])"

section \<open>Example inputs\<close>

text \<open>
  A working directory \<open>/work\<close> with two repositories whose relative paths have 3 and 12
  bytes, one of them with a nested repository; a git that answers some queries, one
  that fails on all and one that fails on \<open>rev-parse\<close> only; a command that fails in
  the first repository.
\<close>

definition demo_tree :: fsnode where
  "demo_tree =
     Dir True [(''abcdefghijkl'', Dir True [(''.git'', Dir True []), (''main.go'', File)]),
               (''abc'', Dir True [(''.git'', Dir True []),
                                   (''vendor'', Dir True [(''.git'', Dir True [])])]),
               (''notes.txt'', File)]"

definition demo_git :: git where
  "demo_git path args =
     (if args = [''rev-parse'', ''--abbrev-ref'', ''HEAD''] then Inr (''main'' @ [NL])
      else if args = [''branch'', ''--format'', ''%(refname:short)'']
      then Inr (''topic'' @ [NL] @ ''main'' @ [NL] @ ''fix'' @ [NL])
      else if args = [''status'', ''--porcelain''] then Inr []
      else Inl (Error ''exit status 1''))"

definition failing_git :: git where
  "failing_git path args = Inl (Error ''exit status 128'')"

definition partial_git :: git where
  "partial_git path args =
     (if args = [''rev-parse'', ''--abbrev-ref'', ''HEAD''] then Inl (Error ''exit status 128'')
      else if args = [''config'', ''get'', ''init.defaultbranch''] then Inr (''dev'' @ [NL])
      else if args = [''status'', ''--porcelain'', ''--branch'']
      then Inr (''## dev...origin/dev [ahead 1]'' @ [NL])
      else if args = [''status'', ''--porcelain''] then Inr []
      else if args = [''branch'', ''--format'', ''%(refname:short)'']
      then Inr (''topic'' @ [NL] @ ''dev'' @ [NL] @ ''fix'' @ [NL])
      else Inl (Error ''exit status 1''))"

definition demo_env :: env where
  "demo_env =
     \<lparr>env_Getwd = (''/work'', None),
      env_EvalSymlinks = (\<lambda>path. (path, None)),
      env_tree = demo_tree,
      env_git = demo_git,
      env_run = (\<lambda>path command.
                  if path = ''/work/abc'' then (''boom'' @ [NL], Some (ExitError 3)) else (''ok'' @ [NL], None)),
      env_finish = (\<lambda>path. 100 - length path)\<rparr>"

definition demo_config :: config where
  "demo_config =
     \<lparr>flag_parallel = 2, flag_branch = [], flag_dirty = False, flag_clean = False,
      flag_help = False, flag_status = False, flag_args = [''make'', ''test'']\<rparr>"

text \<open>
  The scenario of two repositories \<open>A\<close> (clean, on \<open>main\<close>) and \<open>B\<close> (dirty, on
  \<open>bugfix-123\<close>) under \<open>-branch bugfix-123\<close>.
\<close>

definition scenario_git :: git where
  "scenario_git path args =
     (if args = [''rev-parse'', ''--abbrev-ref'', ''HEAD'']
      then (if path = ''/work/B'' then Inr (''bugfix-123'' @ [NL]) else Inr (''main'' @ [NL]))
      else if args = [''status'', ''--porcelain'']
      then (if path = ''/work/B'' then Inr ('' M main.go'' @ [NL]) else Inr [])
      else Inl (Error ''exit status 1''))"

definition scenario_config :: config where
  "scenario_config =
     \<lparr>flag_parallel = 2, flag_branch = ''bugfix-123'', flag_dirty = False, flag_clean = False,
      flag_help = False, flag_status = False, flag_args = [''git'', ''push'']\<rparr>"

section \<open>Facts about the string functions\<close>

lemma HasPrefix_prefix: "HasPrefix s p \<longleftrightarrow> prefix p s"
  by (induction s p rule: HasPrefix.induct) auto

lemma Contains_sublist: "Contains s sub \<longleftrightarrow> sublist sub s"
  by (induction s) (auto simp: HasPrefix_prefix sublist_Cons_right)

lemma SplitN2_first: "hd (SplitN2 (l @ rest)) = l"
  if "NL \<notin> set l" and "rest = [] \<or> hd rest = NL"
  using that by (cases rest) (auto simp: SplitN2_def takeWhile_tail)

lemma SplitN2_not_Nil: "SplitN2 s \<noteq> []"
  by (simp add: SplitN2_def)

section \<open>The walk and what it reports\<close>

lemma names_repos_sort:
  "names_repos filters path (sort_key fst entries) = names_repos filters path entries"
proof -
  have "sum_list (map f (sort_key fst entries)) = sum_list (map f entries)"
    for f :: "string \<times> fsnode \<Rightarrow> string multiset"
    by (metis mset_map mset_sort sum_mset_sum_list)
  then show ?thesis by (simp add: names_repos_def)
qed

lemma names_repos_concat:
  "mset (concat (map (\<lambda>(name, child). repos_below filters (Join path name) child) entries))
   = names_repos filters path entries"
  by (induction entries) (auto simp: names_repos_def)

lemma walk_refines:
  fixes gitRepos :: "string list"
  shows "(if unreadable_below info
       then \<exists>acc. walk (walkFn filters) path info gitRepos
                    = (Some (Fail (Error ''permission denied'')), acc)
       else \<exists>r acc. walk (walkFn filters) path info gitRepos = (r, acc)
              \<and> (r = None \<or> r = Some SkipDir \<and> IsDir info)
              \<and> mset acc = mset gitRepos + mset (repos_below filters path info))"
  and "(if \<exists>(name, child) \<in> set names. unreadable_below child
       then \<exists>acc. walk_names (walkFn filters) path names gitRepos
                    = (Some (Fail (Error ''permission denied'')), acc)
       else \<exists>acc. walk_names (walkFn filters) path names gitRepos = (None, acc)
              \<and> mset acc = mset gitRepos + names_repos filters path names)"
proof (induction "walkFn filters" path info gitRepos and "walkFn filters" path names gitRepos
       rule: walk_walk_names.induct)
  case (1 path s)
  then show ?case by (simp add: walkFn_def)
next
  case (2 path to_dir s)
  then show ?case by (simp add: walkFn_def)
next
  case (3 path readable entries s)
  let ?d = "Dir readable entries"
  consider (unreadable) "\<not> readable" | (repo) "readable" "isGitRepo ?d"
    | (plain) "readable" "\<not> isGitRepo ?d"
    by blast
  then show ?case
  proof cases
    case unreadable
    then show ?thesis by (simp add: walkFn_def)
  next
    case repo
    then show ?thesis by (simp add: walkFn_def)
  next
    case plain
    have fn: "walkFn filters path ?d None s = (None, s)"
      using plain(2) by (simp add: walkFn_def)
    have step: "walk (walkFn filters) path ?d s
                = walk_names (walkFn filters) path (sort_key fst entries) s"
      using plain(1) fn by simp
    have ih: "if \<exists>(name, child) \<in> set (sort_key fst entries). unreadable_below child
       then \<exists>acc. walk_names (walkFn filters) path (sort_key fst entries) s
                    = (Some (Fail (Error ''permission denied'')), acc)
       else \<exists>acc. walk_names (walkFn filters) path (sort_key fst entries) s = (None, acc)
              \<and> mset acc = mset s + names_repos filters path (sort_key fst entries)"
      using "3.hyps" [of None "(None, s)" None s] plain(1) fn by simp
    have below: "unreadable_below ?d \<longleftrightarrow> (\<exists>(name, child) \<in> set entries. unreadable_below child)"
      using plain by simp
    have repos: "mset (repos_below filters path ?d) = names_repos filters path entries"
      using plain(2) by (simp add: names_repos_concat)
    show ?thesis
      using ih unfolding step below repos
      by (auto simp: names_repos_sort)
  qed
next
  case (4 path s)
  then show ?case by (simp add: names_repos_def)
next
  case (5 path name fileInfo names s)
  show ?case
  proof (cases "unreadable_below fileInfo")
    case True
    with "5.hyps"(1) obtain acc where
      "walk (walkFn filters) (Join path name) fileInfo s
       = (Some (Fail (Error ''permission denied'')), acc)" by auto
    then show ?thesis using True by auto
  next
    case False
    with "5.hyps"(1) obtain r acc where
      w: "walk (walkFn filters) (Join path name) fileInfo s = (r, acc)"
      and r: "r = None \<or> r = Some SkipDir \<and> IsDir fileInfo"
      and acc: "mset acc = mset s + mset (repos_below filters (Join path name) fileInfo)"
      by auto
    have step: "walk_names (walkFn filters) path ((name, fileInfo) # names) s
                = walk_names (walkFn filters) path names acc"
      using w r by auto
    have ih: "if \<exists>(name, child) \<in> set names. unreadable_below child
       then \<exists>acc'. walk_names (walkFn filters) path names acc
                     = (Some (Fail (Error ''permission denied'')), acc')
       else \<exists>acc'. walk_names (walkFn filters) path names acc = (None, acc')
              \<and> mset acc' = mset acc + names_repos filters path names"
    proof (cases r)
      case None
      then show ?thesis using "5.hyps"(2) [of r acc] w by simp
    next
      case (Some x)
      with r have "x = SkipDir" and "IsDir fileInfo" by simp_all
      then show ?thesis using "5.hyps"(3) [of r acc x] w Some by simp
    qed
    show ?thesis
      using ih False acc unfolding step
      by (auto simp: names_repos_def)
  qed
qed

lemma discover_fails:
  assumes "unreadable_below root"
  shows "discover filters cwd root = Inl (Error ''permission denied'')"
proof -
  from assms walk_refines(1) [of root filters cwd "[]"] obtain acc where
    "walk (walkFn filters) cwd root [] = (Some (Fail (Error ''permission denied'')), acc)" by auto
  then show ?thesis
    by (simp add: discover_def Walk_def)
qed

lemma discover_succeeds:
  assumes "\<not> unreadable_below root"
  shows "discover filters cwd root = Inr (sort (repos_below filters cwd root))"
proof -
  from assms walk_refines(1) [of root filters cwd "[]"] obtain r acc where
    w: "walk (walkFn filters) cwd root [] = (r, acc)"
    and r: "r = None \<or> r = Some SkipDir \<and> IsDir root"
    and acc: "mset acc = mset (repos_below filters cwd root)"
    by auto
  from w r have "discover filters cwd root = Inr (sort acc)"
    by (auto simp: discover_def Walk_def)
  moreover have "sort acc = sort (repos_below filters cwd root)"
    using acc by (metis mset_sort properties_for_sort sorted_sort)
  ultimately show ?thesis by simp
qed

lemma discover_Inr:
  assumes "discover filters cwd root = Inr gitRepos"
  shows "\<not> unreadable_below root" and "gitRepos = sort (repos_below filters cwd root)"
proof -
  show "\<not> unreadable_below root"
    using assms discover_fails [of root filters cwd] by auto
  then show "gitRepos = sort (repos_below filters cwd root)"
    using assms discover_succeeds [of root filters cwd] by simp
qed

lemma Join_dir_prefix: "Join path name = dir_prefix path @ name"
  by (simp add: Join_def dir_prefix_def)

lemma dir_prefix_Join: "name \<noteq> [] \<Longrightarrow> dir_prefix (Join path name) = Join path name @ ''/''"
  by (auto simp: Join_def dir_prefix_def append_eq_Cons_conv)

lemma first_component:
  "CHR ''/'' \<notin> set n \<Longrightarrow> s = [] \<or> hd s = CHR ''/'' \<Longrightarrow> takeWhile (\<lambda>c. c \<noteq> CHR ''/'') (n @ s) = n"
  by (cases s) (auto simp: takeWhile_tail)

lemma dir_prefix_not_Nil: "dir_prefix p \<noteq> []"
  by (simp add: dir_prefix_def)

lemma below_name_length:
  assumes "below_name path n q" and "n \<noteq> []"
  shows "length q > length path \<and> length q \<ge> 2"
proof -
  from assms obtain s where q: "q = dir_prefix path @ n @ s" by (auto simp: below_name_def)
  have "length (dir_prefix path) \<ge> length path \<and> length (dir_prefix path) \<ge> 1"
    by (simp add: dir_prefix_def)
  moreover have "length n \<ge> 1" using assms(2) by (cases n) auto
  ultimately show ?thesis unfolding q by simp
qed

lemma below_name_not_root:
  assumes "below_name path n q" and "n \<noteq> []"
  shows "q \<noteq> path" and "dir_prefix q = q @ ''/''"
  using below_name_length [OF assms] by (auto simp: dir_prefix_def)

lemma reach_child:
  assumes "reach (Join path n) q" and "n \<noteq> []"
  shows "below_name path n q"
proof -
  from assms have "q = Join path n \<or> prefix (Join path n @ ''/'') q"
    by (simp add: reach_def dir_prefix_Join)
  then show ?thesis
  proof
    assume "q = Join path n"
    then show ?thesis by (simp add: below_name_def Join_dir_prefix)
  next
    assume "prefix (Join path n @ ''/'') q"
    then obtain t where "q = dir_prefix path @ n @ (''/'' @ t)"
      by (auto simp: prefix_def Join_dir_prefix)
    then show ?thesis unfolding below_name_def by (intro exI [of _ "''/'' @ t"]) simp
  qed
qed

lemma below_name_reach:
  assumes "below_name path n q"
  shows "prefix (dir_prefix path) q"
  using assms by (auto simp: below_name_def)

lemma below_name_unique:
  assumes "below_name path n q" "below_name path n' q" "CHR ''/'' \<notin> set n" "CHR ''/'' \<notin> set n'"
  shows "n = n'"
proof -
  from assms(1) obtain s where q: "q = dir_prefix path @ n @ s" and s: "s = [] \<or> hd s = CHR ''/''"
    by (auto simp: below_name_def)
  from assms(2) obtain s' where q': "q = dir_prefix path @ n' @ s'" and s': "s' = [] \<or> hd s' = CHR ''/''"
    by (auto simp: below_name_def)
  from q q' have "n @ s = n' @ s'" by simp
  then have "takeWhile (\<lambda>c. c \<noteq> CHR ''/'') (n @ s) = takeWhile (\<lambda>c. c \<noteq> CHR ''/'') (n' @ s')"
    by simp
  then show ?thesis
    using first_component [OF assms(3) s] first_component [OF assms(4) s'] by simp
qed

lemma below_name_descendant:
  assumes "below_name path n q" and "is_descendant q' q" and "n \<noteq> []"
  shows "below_name path n q'"
proof -
  from assms(1) obtain s where q: "q = dir_prefix path @ n @ s" and s: "s = [] \<or> hd s = CHR ''/''"
    by (auto simp: below_name_def)
  from assms(2) have "prefix (q @ ''/'') q'"
    using below_name_not_root(2) [OF assms(1,3)] by (simp add: is_descendant_def)
  then obtain t where "q' = dir_prefix path @ n @ (s @ ''/'' @ t)"
    by (auto simp: prefix_def q)
  moreover have "hd (s @ ''/'' @ t) = CHR ''/''" using s by (cases s) auto
  ultimately show ?thesis unfolding below_name_def by blast
qed

lemma siblings_apart:
  assumes "below_name path n q" and "below_name path n' q'" and "n \<noteq> n'"
    and "valid_name n" and "valid_name n'"
  shows "q \<noteq> q'" and "\<not> is_descendant q q'"
proof -
  have sl: "CHR ''/'' \<notin> set n" "CHR ''/'' \<notin> set n'" "n' \<noteq> []"
    using assms(4,5) by (simp_all add: valid_name_def)
  show "q \<noteq> q'" using below_name_unique [OF assms(1) _ sl(1,2)] assms(2,3) by blast
  show "\<not> is_descendant q q'"
    using below_name_descendant [OF assms(2) _ sl(3)] below_name_unique [OF assms(1) _ sl(1,2)] assms(3)
    by blast
qed

lemma repos_below_reach:
  "wf_fs node \<Longrightarrow> q \<in> set (repos_below filters path node) \<Longrightarrow> reach path q"
proof (induction filters path node rule: repos_below.induct)
  case (1 filters path readable entries)
  show ?case
  proof (cases "isGitRepo (Dir readable entries)")
    case True
    with "1.prems" show ?thesis by (auto simp: reach_def split: if_splits)
  next
    case False
    with "1.prems" obtain name child where
      e: "(name, child) \<in> set entries" and q: "q \<in> set (repos_below filters (Join path name) child)"
      by auto
    from e "1.prems"(1) have v: "valid_name name" and w: "wf_fs child" by auto
    from "1.IH" [OF False e refl w q] have "reach (Join path name) q" .
    then have "below_name path name q" using v by (auto intro: reach_child simp: valid_name_def)
    then show ?thesis by (simp add: reach_def below_name_reach)
  qed
qed simp_all

lemma dirs_reach:
  "wf_fs node \<Longrightarrow> (q, d, ps) \<in> set (dirs path ps0 node) \<Longrightarrow> reach path q"
proof (induction path ps0 node rule: dirs.induct)
  case (1 path parents readable entries)
  from "1.prems"(2) consider "q = path"
    | name child where "(name, child) \<in> set entries"
        "(q, d, ps) \<in> set (dirs (Join path name) (parents @ [Dir readable entries]) child)"
    by auto
  then show ?case
  proof cases
    case 1
    then show ?thesis by (simp add: reach_def)
  next
    case (2 name child)
    from 2(1) "1.prems"(1) have v: "valid_name name" and w: "wf_fs child" by auto
    from "1.IH" [OF 2(1) refl w 2(2)] have "reach (Join path name) q" .
    then have "below_name path name q" using v by (auto intro: reach_child simp: valid_name_def)
    then show ?thesis by (simp add: reach_def below_name_reach)
  qed
qed simp_all

lemma check_filters_iff: "check_filters filters path \<longleftrightarrow> passes_all (set filters) path"
  by (induction filters) (auto simp: passes_all_def split: prod.splits)

lemma entries_same_name:
  "distinct (map fst entries) \<Longrightarrow> (n, c) \<in> set entries \<Longrightarrow> (n, c') \<in> set entries \<Longrightarrow> c = c'"
  by (rule eq_key_imp_eq_value)

lemma repos_below_child:
  assumes "wf_fs (Dir readable entries)" and "(n, c) \<in> set entries"
    and "q \<in> set (repos_below filters (Join path n) c)"
  shows "below_name path n q"
proof -
  from assms(1,2) have "valid_name n" and "wf_fs c" by auto
  then show ?thesis
    using repos_below_reach [OF _ assms(3)] by (auto intro: reach_child simp: valid_name_def)
qed

lemma dirs_child:
  assumes "wf_fs (Dir readable entries)" and "(n, c) \<in> set entries"
    and "(q, d, ps) \<in> set (dirs (Join path n) ps0 c)"
  shows "below_name path n q"
proof -
  from assms(1,2) have "valid_name n" and "wf_fs c" by auto
  then show ?thesis
    using dirs_reach [OF _ assms(3)] by (auto intro: reach_child simp: valid_name_def)
qed

lemma repos_below_iff:
  "wf_fs node \<Longrightarrow> (q, d, ps) \<in> set (dirs path ps0 node) \<Longrightarrow>
     \<exists>ps'. ps = ps0 @ ps' \<and>
       (q \<in> set (repos_below filters path node) \<longleftrightarrow>
          isGitRepo d \<and> check_filters filters q \<and> (\<forall>a \<in> set ps'. \<not> isGitRepo a))"
proof (induction path ps0 node arbitrary: ps rule: dirs.induct)
  case (1 path parents readable entries)
  let ?node = "Dir readable entries"
  have wf: "wf_fs ?node" by fact
  have names: "distinct (map fst entries)" using wf by simp
  from "1.prems"(2) consider (here) "q = path" "d = ?node" "ps = parents"
    | (child) n c where "(n, c) \<in> set entries"
        "(q, d, ps) \<in> set (dirs (Join path n) (parents @ [?node]) c)"
    by auto
  then show ?case
  proof cases
    case here
    have "path \<notin> set (repos_below filters path ?node)" if "\<not> isGitRepo ?node"
    proof
      assume "path \<in> set (repos_below filters path ?node)"
      with that obtain n c where e: "(n, c) \<in> set entries"
        and "path \<in> set (repos_below filters (Join path n) c)" by auto
      then have "below_name path n path" using repos_below_child [OF wf] by blast
      moreover have "n \<noteq> []" using wf e by (auto simp: valid_name_def)
      ultimately show False using below_name_not_root(1) by blast
    qed
    then have "path \<in> set (repos_below filters path ?node) \<longleftrightarrow>
                 isGitRepo ?node \<and> check_filters filters path"
      by (cases "isGitRepo ?node") auto
    then show ?thesis using here by simp
  next
    case (child n c)
    have v: "valid_name n" and wc: "wf_fs c" using wf child(1) by auto
    have qn: "below_name path n q" using dirs_child [OF wf child(1,2)] .
    from "1.IH" [OF child(1) refl wc child(2)] obtain ps'' where
      ps: "ps = (parents @ [?node]) @ ps''"
      and ih: "q \<in> set (repos_below filters (Join path n) c) \<longleftrightarrow>
                isGitRepo d \<and> check_filters filters q \<and> (\<forall>a \<in> set ps''. \<not> isGitRepo a)"
      by blast
    have "q \<in> set (repos_below filters path ?node) \<longleftrightarrow>
            \<not> isGitRepo ?node \<and> q \<in> set (repos_below filters (Join path n) c)"
    proof (cases "isGitRepo ?node")
      case True
      moreover have "q \<noteq> path" using below_name_not_root(1) [OF qn] v by (simp add: valid_name_def)
      ultimately show ?thesis by auto
    next
      case False
      have same: "c' = c \<and> n' = n"
        if "(n', c') \<in> set entries" "q \<in> set (repos_below filters (Join path n') c')" for n' c'
      proof -
        have "below_name path n' q" using repos_below_child [OF wf that] .
        moreover have "valid_name n'" using wf that(1) by auto
        ultimately have "n' = n"
          using below_name_unique [OF qn] v by (simp add: valid_name_def)
        then show ?thesis using entries_same_name [OF names child(1)] that(1) by simp
      qed
      have eq: "set (repos_below filters path ?node)
                = (\<Union>(n', c') \<in> set entries. set (repos_below filters (Join path n') c'))"
        using False by auto
      have "q \<in> set (repos_below filters path ?node) \<longleftrightarrow>
              q \<in> set (repos_below filters (Join path n) c)"
      proof
        assume "q \<in> set (repos_below filters path ?node)"
        then obtain n' c' where "(n', c') \<in> set entries"
          "q \<in> set (repos_below filters (Join path n') c')"
          unfolding eq by blast
        then show "q \<in> set (repos_below filters (Join path n) c)"
          using same by blast
      next
        assume "q \<in> set (repos_below filters (Join path n) c)"
        then show "q \<in> set (repos_below filters path ?node)"
          unfolding eq using child(1) by blast
      qed
      then show ?thesis using False by simp
    qed
    moreover have "ps = parents @ (?node # ps'')" using ps by simp
    moreover have "(\<forall>a \<in> set (?node # ps''). \<not> isGitRepo a) \<longleftrightarrow>
                     \<not> isGitRepo ?node \<and> (\<forall>a \<in> set ps''. \<not> isGitRepo a)"
      by simp
    ultimately show ?thesis using ih by blast
  qed
qed simp_all

lemma repos_below_antichain:
  "wf_fs node \<Longrightarrow> q \<in> set (repos_below filters path node)
     \<Longrightarrow> q' \<in> set (repos_below filters path node) \<Longrightarrow> \<not> is_descendant q q'"
proof (induction filters path node rule: repos_below.induct)
  case (1 filters path readable entries)
  let ?node = "Dir readable entries"
  have wf: "wf_fs ?node" by fact
  show ?case
  proof (cases "isGitRepo ?node")
    case True
    with "1.prems"(2,3) have "q = q'" by (auto split: if_splits)
    then show ?thesis by (simp add: is_descendant_def)
  next
    case False
    with "1.prems"(2,3) obtain n c n' c' where
      e: "(n, c) \<in> set entries" and q: "q \<in> set (repos_below filters (Join path n) c)"
      and e': "(n', c') \<in> set entries" and q': "q' \<in> set (repos_below filters (Join path n') c')"
      by auto
    show ?thesis
    proof (cases "n = n'")
      case True
      then have "c = c'" using entries_same_name [OF _ e] e' wf by simp
      with True q' have "q' \<in> set (repos_below filters (Join path n) c)" by simp
      moreover have "wf_fs c" using wf e by auto
      ultimately show ?thesis using "1.IH" [OF False e refl _ q] by blast
    next
      case neq: False
      have "valid_name n" "valid_name n'" using wf e e' by auto
      then show ?thesis
        using siblings_apart(2) [OF repos_below_child [OF wf e q] repos_below_child [OF wf e' q'] neq]
        by blast
    qed
  qed
qed simp_all

lemma repos_below_dirs:
  "q \<in> set (repos_below filters path node) \<Longrightarrow> \<exists>d ps. (q, d, ps) \<in> set (dirs path ps0 node)"
proof (induction filters path node arbitrary: ps0 rule: repos_below.induct)
  case (1 filters path readable entries)
  show ?case
  proof (cases "isGitRepo (Dir readable entries)")
    case True
    with "1.prems" show ?thesis by (auto split: if_splits)
  next
    case False
    with "1.prems" obtain n c where
      e: "(n, c) \<in> set entries" and q: "q \<in> set (repos_below filters (Join path n) c)"
      by auto
    from "1.IH" [OF False e refl q] obtain d ps where
      "(q, d, ps) \<in> set (dirs (Join path n) (ps0 @ [Dir readable entries]) c)" by blast
    with e show ?thesis by force
  qed
qed simp_all

lemma repos_below_mono:
  "set filters \<subseteq> set filters' \<Longrightarrow>
     set (repos_below filters' path node) \<subseteq> set (repos_below filters path node)"
proof (induction filters path node rule: repos_below.induct)
  case (1 filters path readable entries)
  show ?case
  proof (cases "isGitRepo (Dir readable entries)")
    case True
    have "check_filters filters' path \<Longrightarrow> check_filters filters path"
      using "1.prems" by (auto simp: check_filters_iff passes_all_def)
    then show ?thesis using True by auto
  next
    case False
    have "set (repos_below filters' (Join path n) c) \<subseteq> set (repos_below filters (Join path n) c)"
      if "(n, c) \<in> set entries" for n c
      using "1.IH" [OF False that refl "1.prems"] .
    then show ?thesis using False by fastforce
  qed
qed simp_all

section \<open>Discovery\<close>

text \<open>
  Claim C1. Let the tree below the working directory be well formed (the names of a
  directory are distinct file names) and let the walk succeed with the sorted list
  \<open>gitRepos\<close>. Then for every directory of the tree, with its path \<open>q\<close>: if a directory
  above it, from the working directory down, is a repository root (it has an entry
  \<open>.git\<close> that \<open>os.Stat\<close> reports as a directory), \<open>q\<close> is not in the list, since the
  walk does not descend below a repository root; otherwise \<open>q\<close> is in the list exactly
  when the directory itself is a repository root and every filter returns true without
  error for \<open>q\<close>. The list holds only paths of directories of the tree, it is sorted in the
  order of strings, and no path in it is a descendant of another.
\<close>

theorem discovery_reports_repository_roots:
  assumes "wf_fs root" and "discover filters cwd root = Inr gitRepos"
  shows "(\<forall>(q, d, ps) \<in> set (dirs cwd [] root).
            (if \<exists>a \<in> set ps. isGitRepo a then q \<notin> set gitRepos
             else q \<in> set gitRepos \<longleftrightarrow> isGitRepo d \<and> passes_all (set filters) q))
         \<and> set gitRepos \<subseteq> fst ` set (dirs cwd [] root)
         \<and> sorted gitRepos
         \<and> (\<forall>p \<in> set gitRepos. \<forall>q \<in> set gitRepos. \<not> is_descendant q p)"
proof -
  have R: "set gitRepos = set (repos_below filters cwd root)" and s: "sorted gitRepos"
    using discover_Inr(2) [OF assms(2)] by simp_all
  have "if \<exists>a \<in> set ps. isGitRepo a then q \<notin> set gitRepos
        else q \<in> set gitRepos \<longleftrightarrow> isGitRepo d \<and> passes_all (set filters) q"
    if "(q, d, ps) \<in> set (dirs cwd [] root)" for q d ps
    using repos_below_iff [OF assms(1) that, of filters] unfolding R check_filters_iff by auto
  moreover have "set gitRepos \<subseteq> fst ` set (dirs cwd [] root)"
    unfolding R using repos_below_dirs [of _ filters cwd root "[]"] by force
  moreover have "\<not> is_descendant q p" if "p \<in> set gitRepos" "q \<in> set gitRepos" for p q
    using repos_below_antichain [OF assms(1)] that unfolding R by blast
  ultimately show ?thesis using s by blast
qed

theorem discovery_reports_repository_roots_witness:
  "wf_fs (Dir True [(''b'', Dir True [(''.git'', Dir True [])]),
                    (''a'', Dir True [(''.git'', Dir True []),
                                      (''vendor'', Dir True [(''.git'', Dir True [])])]),
                    (''c'', Dir True [(''.git'', Dir True [])]),
                    (''notes.txt'', File)])
   \<and> discover [\<lambda>path. (path \<noteq> ''/work/c'', None)] ''/work''
        (Dir True [(''b'', Dir True [(''.git'', Dir True [])]),
                   (''a'', Dir True [(''.git'', Dir True []),
                                     (''vendor'', Dir True [(''.git'', Dir True [])])]),
                   (''c'', Dir True [(''.git'', Dir True [])]),
                   (''notes.txt'', File)])
      = Inr [''/work/a'', ''/work/b'']
   \<and> sorted [''/work/a'', ''/work/b'']
   \<and> \<not> is_descendant ''/work/b'' ''/work/a''
   \<and> ''/work/a/vendor'' \<notin> set [''/work/a'', ''/work/b'']"
proof -
  let ?root = "Dir True [(''b'', Dir True [(''.git'', Dir True [])]),
                    (''a'', Dir True [(''.git'', Dir True []),
                                      (''vendor'', Dir True [(''.git'', Dir True [])])]),
                    (''c'', Dir True [(''.git'', Dir True [])]),
                    (''notes.txt'', File)]"
  let ?f = "\<lambda>path. (path \<noteq> ''/work/c'', None :: error option)"
  have wf: "wf_fs ?root" by (simp add: valid_name_def)
  have d: "discover [?f] ''/work'' ?root = Inr [''/work/a'', ''/work/b'']"
    by (simp add: discover_def Walk_def walkFn_def isGitRepo_def Join_def)
  note claim = discovery_reports_repository_roots [OF wf d]
  from claim have s: "sorted [''/work/a'', ''/work/b'']" by blast
  from claim have
    "\<forall>p \<in> set [''/work/a'', ''/work/b'']. \<forall>q \<in> set [''/work/a'', ''/work/b'']. \<not> is_descendant q p"
    by blast
  then have a: "\<not> is_descendant ''/work/b'' ''/work/a''" by simp
  from claim have
    "\<forall>(q, d, ps) \<in> set (dirs ''/work'' [] ?root).
            (if \<exists>a \<in> set ps. isGitRepo a then q \<notin> set [''/work/a'', ''/work/b'']
             else q \<in> set [''/work/a'', ''/work/b''] \<longleftrightarrow> isGitRepo d \<and> passes_all (set [?f]) q)"
    by blast
  then have v: "''/work/a/vendor'' \<notin> set [''/work/a'', ''/work/b'']"
    by (simp add: Join_def isGitRepo_def)
  show ?thesis using wf d s a v by simp
qed

section \<open>The filter pipeline\<close>

lemma check_filters_as_false:
  "check_filters (map as_false filters) path = check_filters filters path"
  by (induction filters) (auto simp: as_false_def split: prod.splits option.splits)

lemma repos_below_as_false:
  "repos_below (map as_false filters) path node = repos_below filters path node"
proof (induction filters path node rule: repos_below.induct)
  case (1 filters path readable entries)
  show ?case
  proof (cases "isGitRepo (Dir readable entries)")
    case True
    then show ?thesis by (simp add: check_filters_as_false)
  next
    case False
    have "repos_below (map as_false filters) (Join path n) c = repos_below filters (Join path n) c"
      if "(n, c) \<in> set entries" for n c
      using "1.IH" [OF False that refl] .
    then have m: "map (\<lambda>(name, child). repos_below (map as_false filters) (Join path name) child) entries
             = map (\<lambda>(name, child). repos_below filters (Join path name) child) entries"
      by (intro map_cong) auto
    have "repos_below fs path (Dir readable entries)
          = concat (map (\<lambda>(name, child). repos_below fs (Join path name) child) entries)" for fs
      using False by simp
    then show ?thesis by (simp only: m)
  qed
qed simp_all

lemma discover_as_false: "discover (map as_false filters) cwd root = discover filters cwd root"
proof (cases "unreadable_below root")
  case True
  then show ?thesis by (simp add: discover_fails)
next
  case False
  then show ?thesis by (simp add: discover_succeeds repos_below_as_false)
qed

text \<open>
  Claim C2. The loop over the filters accepts a path exactly when every filter returns
  true with no error for it, so the filters are combined by logical and; the empty list
  accepts every path; for the filters \<open>main\<close> builds from \<open>-branch\<close>, \<open>-dirty\<close> and
  \<open>-clean\<close> this reads: the current branch is the given one, the worktree is dirty, the
  worktree is clean, each query without error. A filter that returns an error counts as
  one that returns false: replacing every error by false changes neither the loop nor
  the result of the whole discovery. The walk function never answers a filter with an
  error of the walk (it returns \<open>nil\<close> or \<open>SkipDir\<close>), and the discovery ends in an
  error under some filters exactly when it does so with no filter at all.
\<close>

theorem filters_conjoin_and_fail_closed:
  "(check_filters filters path \<longleftrightarrow> (\<forall>f \<in> set filters. f path = (True, None)))
   \<and> check_filters [] path
   \<and> (check_filters (mkFilters c git) path \<longleftrightarrow>
        (flag_branch c \<noteq> [] \<longrightarrow> getCurrentBranch git path = (flag_branch c, None))
        \<and> (flag_dirty c \<longrightarrow> isDirty git path = (True, None))
        \<and> (flag_clean c \<longrightarrow> isClean git path = (True, None)))
   \<and> check_filters (map as_false filters) path = check_filters filters path
   \<and> discover (map as_false filters) cwd root = discover filters cwd root
   \<and> fst (walkFn filters path info None gitRepos) \<in> {None, Some SkipDir}
   \<and> ((\<exists>err. discover filters cwd root = Inl err) \<longleftrightarrow> (\<exists>err. discover [] cwd root = Inl err))"
proof -
  have 1: "check_filters filters path \<longleftrightarrow> (\<forall>f \<in> set filters. f path = (True, None))"
    by (simp add: check_filters_iff passes_all_def)
  have 3: "check_filters (mkFilters c git) path \<longleftrightarrow>
        (flag_branch c \<noteq> [] \<longrightarrow> getCurrentBranch git path = (flag_branch c, None))
        \<and> (flag_dirty c \<longrightarrow> isDirty git path = (True, None))
        \<and> (flag_clean c \<longrightarrow> isClean git path = (True, None))"
    by (auto simp: check_filters_iff passes_all_def mkFilters_def branchFilter_def
             split: prod.splits)
  have 5: "fst (walkFn filters path info None gitRepos) \<in> {None, Some SkipDir}"
    by (simp add: walkFn_def)
  have 6: "(\<exists>err. discover fs cwd root = Inl err) \<longleftrightarrow> unreadable_below root" for fs
    by (cases "unreadable_below root") (simp_all add: discover_fails discover_succeeds)
  show ?thesis
    using 1 3 5 6 [of filters] 6 [of "[]"] check_filters_as_false [of filters path]
      discover_as_false [of filters cwd root]
    by simp
qed

theorem filters_conjoin_and_fail_closed_witness:
  "\<not> check_filters [\<lambda>path. (True, if path = ''/work/a'' then Some (Error ''exit status 128'') else None)]
        ''/work/a''
   \<and> check_filters [\<lambda>path. (True, if path = ''/work/a'' then Some (Error ''exit status 128'') else None)]
        ''/work/b''
   \<and> check_filters [] ''/work/a''
   \<and> discover [\<lambda>path. (True, if path = ''/work/a'' then Some (Error ''exit status 128'') else None)]
        ''/work''
        (Dir True [(''a'', Dir True [(''.git'', Dir True [])]),
                   (''b'', Dir True [(''.git'', Dir True [])])])
      = Inr [''/work/b'']
   \<and> discover [] ''/work''
        (Dir True [(''a'', Dir True [(''.git'', Dir True [])]),
                   (''b'', Dir True [(''.git'', Dir True [])])])
      = Inr [''/work/a'', ''/work/b'']
   \<and> flag_branch scenario_config = ''bugfix-123''
   \<and> check_filters (mkFilters scenario_config scenario_git) ''/work/B''
   \<and> \<not> check_filters (mkFilters scenario_config scenario_git) ''/work/A''
   \<and> discover (mkFilters scenario_config scenario_git) ''/work''
        (Dir True [(''A'', Dir True [(''.git'', Dir True [])]),
                   (''B'', Dir True [(''.git'', Dir True [])])])
      = Inr [''/work/B'']"
proof -
  let ?f = "\<lambda>path. (True, if path = ''/work/a'' then Some (Error ''exit status 128'') else None)"
  let ?root = "Dir True [(''a'', Dir True [(''.git'', Dir True [])]),
                         (''b'', Dir True [(''.git'', Dir True [])])]"
  have "check_filters [?f] path \<longleftrightarrow> (\<forall>f \<in> set [?f]. f path = (True, None))" for path
    using filters_conjoin_and_fail_closed
            [where c = scenario_config and git = scenario_git and path = path
               and filters = "[?f]" and cwd = "[]" and root = File and info = File and gitRepos = "[]"]
    by blast
  then have a: "\<not> check_filters [?f] ''/work/a''"
    and b: "check_filters [?f] ''/work/b''" "check_filters [] ''/work/a''"
    by simp_all
  have d: "discover [?f] ''/work'' ?root = Inr [''/work/b'']"
    "discover [] ''/work'' ?root = Inr [''/work/a'', ''/work/b'']"
    by (simp_all add: discover_def Walk_def walkFn_def isGitRepo_def Join_def)
  have fl: "flag_branch scenario_config = ''bugfix-123''" "\<not> flag_dirty scenario_config"
    "\<not> flag_clean scenario_config"
    by (simp_all add: scenario_config_def)
  have gB: "getCurrentBranch scenario_git ''/work/B'' = (''bugfix-123'', None)" by code_simp
  have gA: "getCurrentBranch scenario_git ''/work/A'' = (''main'', None)" by code_simp
  have "check_filters (mkFilters scenario_config scenario_git) path \<longleftrightarrow>
          (flag_branch scenario_config \<noteq> [] \<longrightarrow>
             getCurrentBranch scenario_git path = (flag_branch scenario_config, None))
          \<and> (flag_dirty scenario_config \<longrightarrow> isDirty scenario_git path = (True, None))
          \<and> (flag_clean scenario_config \<longrightarrow> isClean scenario_git path = (True, None))" for path
    using filters_conjoin_and_fail_closed
            [where c = scenario_config and git = scenario_git and path = path
               and filters = "[]" and cwd = "[]" and root = File and info = File and gitRepos = "[]"]
    by blast
  then have B: "check_filters (mkFilters scenario_config scenario_git) ''/work/B''"
    and A: "\<not> check_filters (mkFilters scenario_config scenario_git) ''/work/A''"
    using fl gA gB by simp_all
  have s: "discover (mkFilters scenario_config scenario_git) ''/work''
        (Dir True [(''A'', Dir True [(''.git'', Dir True [])]),
                   (''B'', Dir True [(''.git'', Dir True [])])])
      = Inr [''/work/B'']"
    using A B by (simp add: discover_def Walk_def walkFn_def isGitRepo_def Join_def)
  show ?thesis using a b d fl(1) A B s by simp
qed

text \<open>
  Claim C9. If every filter of \<open>filters\<close> is among \<open>filters'\<close> and the discovery under
  \<open>filters'\<close> succeeds, then the discovery under \<open>filters\<close> succeeds on the same tree and
  every repository matched under \<open>filters'\<close> is matched under \<open>filters\<close>.
\<close>

theorem more_filters_fewer_repositories:
  assumes "set filters \<subseteq> set filters'" and "discover filters' cwd root = Inr gitRepos'"
  shows "\<exists>gitRepos. discover filters cwd root = Inr gitRepos \<and> set gitRepos' \<subseteq> set gitRepos"
proof -
  from discover_Inr [OF assms(2)] have r: "\<not> unreadable_below root"
    and g: "gitRepos' = sort (repos_below filters' cwd root)" by simp_all
  have "discover filters cwd root = Inr (sort (repos_below filters cwd root))"
    using r by (rule discover_succeeds)
  moreover have "set gitRepos' \<subseteq> set (sort (repos_below filters cwd root))"
    using repos_below_mono [OF assms(1)] g by simp
  ultimately show ?thesis by blast
qed

theorem more_filters_fewer_repositories_witness:
  "set [] \<subseteq> set [\<lambda>path. (path = ''/work/b'', None :: error option)]
   \<and> discover [\<lambda>path. (path = ''/work/b'', None)] ''/work''
        (Dir True [(''a'', Dir True [(''.git'', Dir True [])]),
                   (''b'', Dir True [(''.git'', Dir True [])])])
      = Inr [''/work/b'']
   \<and> (\<exists>gitRepos.
         discover [] ''/work''
           (Dir True [(''a'', Dir True [(''.git'', Dir True [])]),
                      (''b'', Dir True [(''.git'', Dir True [])])])
         = Inr gitRepos
         \<and> set [''/work/b''] \<subseteq> set gitRepos)"
proof -
  let ?root = "Dir True [(''a'', Dir True [(''.git'', Dir True [])]),
                         (''b'', Dir True [(''.git'', Dir True [])])]"
  let ?f = "\<lambda>path. (path = ''/work/b'', None :: error option)"
  have sub: "set [] \<subseteq> set [?f]" by simp
  have d: "discover [?f] ''/work'' ?root = Inr [''/work/b'']"
    by (simp add: discover_def Walk_def walkFn_def isGitRepo_def Join_def)
  from more_filters_fewer_repositories [OF sub d] show ?thesis using sub d by blast
qed

section \<open>The tasks and the run as a whole\<close>

lemma run_tasks_collect:
  assumes "\<And>repo st. action repo st =
             Some (st\<lparr>results := results st @ [line repo],
                      finalExitCode := (if bad repo then 1 else finalExitCode st)\<rparr>)"
  shows "run_tasks action order st =
           Some (st\<lparr>results := results st @ map line order,
                    finalExitCode := (if \<exists>repo \<in> set order. bad repo then 1 else finalExitCode st)\<rparr>)"
proof (induction order arbitrary: st)
  case Nil
  show ?case by simp
next
  case (Cons repo order)
  let ?st = "st\<lparr>results := results st @ [line repo],
                 finalExitCode := (if bad repo then 1 else finalExitCode st)\<rparr>"
  have "run_tasks action (repo # order) st = run_tasks action order ?st"
    by (simp only: run_tasks.simps assms [of repo st] option.case)
  then show ?case unfolding Cons.IH [of ?st] by auto
qed

lemma applyAction_step:
  assumes "flag_status c \<or> flag_args c \<noteq> []"
  shows "applyAction c e gitRepos path cwd st =
           Some (st\<lparr>results := results st @ [task_result c e gitRepos cwd path],
                    finalExitCode := (if task_failed c e path then 1 else finalExitCode st)\<rparr>)"
proof (cases "flag_status c")
  case True
  then show ?thesis
    by (simp add: applyAction_def task_result_def task_failed_def statusRepo_def)
next
  case False
  with assms obtain name arg where c: "flag_args c = name # arg" by (cases "flag_args c") auto
  obtain out err where r: "env_run e path (name # arg) = (out, err)"
    by (cases "env_run e path (name # arg)")
  show ?thesis
  proof (cases err)
    case None
    then show ?thesis using False
      by (simp add: applyAction_def task_result_def task_failed_def processRepo_def
            runCommand_def c r Let_def)
  next
    case (Some x)
    then show ?thesis using False
      by (cases x)
         (simp_all add: applyAction_def task_result_def task_failed_def processRepo_def
            runCommand_def c r Let_def)
  qed
qed

lemma print_results_mset: "mset rs = mset rs' \<Longrightarrow> print_results rs = print_results rs'"
proof -
  assume "mset rs = mset rs'"
  then have "sort rs = sort rs'"
    by (metis mset_sort properties_for_sort sorted_sort)
  then show ?thesis by (simp add: print_results_def)
qed

lemma run_tasks_main:
  assumes "flag_status c \<or> flag_args c \<noteq> []"
  shows "run_tasks (\<lambda>repo. applyAction c e gitRepos repo cwd) (sort_key (env_finish e) gitRepos)
               \<lparr>results = [], finalExitCode = 0\<rparr>
         = Some \<lparr>results = map (task_result c e gitRepos cwd) (sort_key (env_finish e) gitRepos),
                 finalExitCode = (if \<exists>repo \<in> set gitRepos. task_failed c e repo then 1 else 0)\<rparr>"
  using run_tasks_collect [where action = "\<lambda>repo. applyAction c e gitRepos repo cwd"
      and line = "task_result c e gitRepos cwd" and bad = "task_failed c e"
      and order = "sort_key (env_finish e) gitRepos" and st = "\<lparr>results = [], finalExitCode = 0\<rparr>",
      OF applyAction_step [OF assms] ]
  by simp

lemma print_results_finish:
  "print_results (map g (sort_key k gitRepos)) = print_results (map g gitRepos)"
  by (rule print_results_mset) simp

lemma main_after_discovery:
  assumes "\<not> flag_help c" and "flag_status c \<or> flag_args c \<noteq> []"
  shows "main c e =
     (case discovery c e of
        Inl err \<Rightarrow>
          Exit 1 ((case env_Getwd e of
                     (cwd0, Some err) \<Rightarrow> ''Error getting current working directory: ''
                   | (cwd0, None) \<Rightarrow>
                       (case env_EvalSymlinks e cwd0 of
                          (cwd, Some err) \<Rightarrow> ''Error resolving symlink: ''
                        | (cwd, None) \<Rightarrow> ''Error walking the path: ''))
                  @ message err @ [NL])
      | Inr (cwd, gitRepos) \<Rightarrow>
          if flag_parallel c < 0 then Panic
          else if flag_parallel c = 0 \<and> gitRepos \<noteq> [] then Blocked
          else Exit (if \<exists>repo \<in> set gitRepos. task_failed c e repo then 1 else 0)
                    (clear_line @ print_results (map (task_result c e gitRepos cwd) gitRepos)))"
proof -
  obtain cwd0 err0 where wd: "env_Getwd e = (cwd0, err0)" by (cases "env_Getwd e")
  obtain cwd err1 where ev: "env_EvalSymlinks e cwd0 = (cwd, err1)"
    by (cases "env_EvalSymlinks e cwd0")
  show ?thesis
  proof (cases err0)
    case (Some err)
    then show ?thesis using assms by (auto simp: main_def discovery_def wd)
  next
    case None
    note wd0 = None
    show ?thesis
    proof (cases err1)
      case (Some err)
      then show ?thesis using assms by (auto simp: main_def discovery_def wd wd0 ev)
    next
      case None
      show ?thesis
      proof (cases "discover (mkFilters c (env_git e)) cwd (env_tree e)")
        case (Inl err)
        then show ?thesis using assms by (auto simp: main_def discovery_def wd wd0 ev None)
      next
        case (Inr gitRepos)
        then show ?thesis
          using assms
          by (auto simp: main_def discovery_def wd wd0 ev None run_tasks_main [OF assms(2)]
                print_results_finish)
      qed
    qed
  qed
qed

lemma main_output:
  assumes "\<not> flag_help c" and "flag_status c \<or> flag_args c \<noteq> []" and "1 \<le> flag_parallel c"
    and "discovery c e = Inr (cwd, gitRepos)"
  shows "main c e =
           Exit (if \<exists>repo \<in> set gitRepos. task_failed c e repo then 1 else 0)
                (clear_line @ print_results (map (task_result c e gitRepos cwd) gitRepos))"
  using assms(3,4) by (simp add: main_after_discovery [OF assms(1,2)])

lemma discovery_finish: "discovery c (e\<lparr>env_finish := f\<rparr>) = discovery c e"
  by (simp add: discovery_def split: prod.splits option.splits sum.splits)

lemma main_early:
  assumes "flag_help c \<or> (\<not> flag_status c \<and> flag_args c = [])"
  shows "main c e = (if flag_help c then Exit 0 (''Usage: gits [options] command [args...]'' @ [NL])
                     else Exit 1 (''No command provided'' @ [NL]))"
  using assms by (auto simp: main_def)

lemma main_finish_irrelevant: "main c (e\<lparr>env_finish := f\<rparr>) = main c e"
proof (cases "flag_help c \<or> (\<not> flag_status c \<and> flag_args c = [])")
  case True
  then show ?thesis by (simp only: main_early)
next
  case False
  then have a: "\<not> flag_help c" "flag_status c \<or> flag_args c \<noteq> []" by auto
  have r: "task_result c (e\<lparr>env_finish := f\<rparr>) = task_result c e"
    by (intro ext) (simp add: task_result_def applyAction_def)
  have b: "task_failed c (e\<lparr>env_finish := f\<rparr>) = task_failed c e"
    by (rule ext) (simp add: task_failed_def)
  show ?thesis
  proof (cases "discovery c e")
    case (Inl err)
    then show ?thesis by (simp add: main_after_discovery [OF a] discovery_finish)
  next
    case (Inr found)
    then show ?thesis
      by (cases found) (simp add: main_after_discovery [OF a] discovery_finish r b)
  qed
qed

section \<open>The exit code\<close>

lemma demo_discovery: "discovery (c\<lparr>flag_branch := [], flag_dirty := False, flag_clean := False\<rparr>) demo_env
                       = Inr (''/work'', [''/work/abc'', ''/work/abcdefghijkl''])"
  by (simp add: discovery_def demo_env_def demo_tree_def mkFilters_def
        discover_def Walk_def walkFn_def isGitRepo_def Join_def)

lemma demo_config_discovery:
  "discovery demo_config demo_env = Inr (''/work'', [''/work/abc'', ''/work/abcdefghijkl''])"
  using demo_discovery [of demo_config] by (simp add: demo_config_def)

lemma applyAction_flag:
  assumes "applyAction c e gitRepos repo cwd st = Some st'"
  shows "finalExitCode st' = (if task_failed c e repo then 1 else finalExitCode st)"
proof (cases "flag_status c \<or> flag_args c \<noteq> []")
  case True
  from applyAction_step [OF True, of e gitRepos repo cwd st] assms show ?thesis by auto
next
  case False
  then have "applyAction c e gitRepos repo cwd st = None"
    by (simp add: applyAction_def processRepo_def runCommand_def)
  with assms show ?thesis by simp
qed

text \<open>
  Claim C3. Take a run that is not ended by \<open>-help\<close> or by a missing command and whose
  parallelism limit is at least one. It exits, and its code is 1 when the discovery
  ended in a fatal error; otherwise it is 1 exactly when the run is not in status mode
  and for some discovered repository \<open>runCommand\<close> gave a code other than zero, and 0 in
  every other case, so in status mode it is 0. The flag behind it is only ever set: a
  task leaves \<open>finalExitCode\<close> at 1 when its command failed and as it found it otherwise,
  and \<open>statusRepo\<close> never changes it. (It starts at 0 in \<open>main\<close>.)
\<close>

theorem exit_code_reflects_failed_commands:
  assumes "\<not> flag_help c" and "flag_status c \<or> flag_args c \<noteq> []" and "1 \<le> flag_parallel c"
  shows "(\<exists>out. main c e =
            Exit (case discovery c e of
                    Inl err \<Rightarrow> 1
                  | Inr (cwd, gitRepos) \<Rightarrow>
                      if \<not> flag_status c \<and>
                         (\<exists>repo \<in> set gitRepos. \<exists>output exitCode.
                            runCommand (env_run e) repo (flag_args c) = Some (output, exitCode)
                            \<and> exitCode \<noteq> 0)
                      then 1 else 0)
                 out)
         \<and> (\<forall>gitRepos repo cwd st st'.
               applyAction c e gitRepos repo cwd st = Some st' \<longrightarrow>
                 finalExitCode st' = (if task_failed c e repo then 1 else finalExitCode st))
         \<and> (\<forall>git path cwd width st.
               finalExitCode (statusRepo git path cwd width st) = finalExitCode st)"
proof -
  have tf: "task_failed c e repo \<longleftrightarrow>
              \<not> flag_status c \<and> (\<exists>output exitCode.
                  runCommand (env_run e) repo (flag_args c) = Some (output, exitCode)
                  \<and> exitCode \<noteq> 0)" for repo
    by (auto simp: task_failed_def split: option.splits)
  have ex: "(\<exists>repo \<in> set gitRepos. task_failed c e repo) \<longleftrightarrow>
      \<not> flag_status c \<and> (\<exists>repo \<in> set gitRepos. \<exists>output exitCode.
                            runCommand (env_run e) repo (flag_args c) = Some (output, exitCode)
                            \<and> exitCode \<noteq> 0)" for gitRepos
    unfolding tf by blast
  have 1: "\<exists>out. main c e =
            Exit (case discovery c e of
                    Inl err \<Rightarrow> 1
                  | Inr (cwd, gitRepos) \<Rightarrow>
                      if \<not> flag_status c \<and>
                         (\<exists>repo \<in> set gitRepos. \<exists>output exitCode.
                            runCommand (env_run e) repo (flag_args c) = Some (output, exitCode)
                            \<and> exitCode \<noteq> 0)
                      then 1 else 0)
                 out"
  proof (cases "discovery c e")
    case (Inl err)
    then show ?thesis by (simp add: main_after_discovery [OF assms(1,2)])
  next
    case (Inr found)
    then show ?thesis
      using assms(3) by (cases found) (simp add: main_after_discovery [OF assms(1,2)] ex)
  qed
  show ?thesis
    using 1 applyAction_flag by (simp add: statusRepo_def) 
qed

theorem exit_code_reflects_failed_commands_witness:
  "\<not> flag_help demo_config \<and> flag_args demo_config \<noteq> [] \<and> 1 \<le> flag_parallel demo_config
   \<and> (\<exists>out. main demo_config demo_env = Exit 1 out)
   \<and> (\<exists>out. main (demo_config\<lparr>flag_status := True\<rparr>) demo_env = Exit 0 out)"
proof -
  have c: "\<not> flag_help demo_config" "flag_args demo_config \<noteq> []" "1 \<le> flag_parallel demo_config"
    by (simp_all add: demo_config_def)
  have "runCommand (env_run demo_env) ''/work/abc'' (flag_args demo_config) = Some (''boom'' @ [NL], 3)"
    by (simp add: runCommand_def demo_env_def demo_config_def)
  then have 1: "\<exists>out. main demo_config demo_env = Exit 1 out"
    using exit_code_reflects_failed_commands [of demo_config demo_env] c
    by (simp add: demo_config_discovery) (simp add: demo_config_def)
  have "discovery (demo_config\<lparr>flag_status := True\<rparr>) demo_env
        = Inr (''/work'', [''/work/abc'', ''/work/abcdefghijkl''])"
    using demo_discovery [of "demo_config\<lparr>flag_status := True\<rparr>"] by (simp add: demo_config_def)
  then have 2: "\<exists>out. main (demo_config\<lparr>flag_status := True\<rparr>) demo_env = Exit 0 out"
    using exit_code_reflects_failed_commands [of "demo_config\<lparr>flag_status := True\<rparr>" demo_env] c
    by simp
  show ?thesis using c 1 2 by simp
qed

section \<open>The printed results\<close>

text \<open>
  Claim C5. The times at which the tasks finish do not change what a run prints or how
  it ends. What is printed for the results is a function of their multiset: it is the
  results in sorted order, each followed by a newline. In a run that reaches its tasks,
  the output after the cleared progress line is exactly this print of the results that
  the tasks appended, in whatever order they finished.
\<close>

theorem printed_results_are_sorted_whatever_the_order:
  "main c (e\<lparr>env_finish := f\<rparr>) = main c (e\<lparr>env_finish := g\<rparr>)
   \<and> (mset rs = mset rs' \<longrightarrow> print_results rs = print_results rs')
   \<and> (\<exists>ls. sorted ls \<and> mset ls = mset rs \<and> print_results rs = concat (map (\<lambda>r. r @ [NL]) ls))
   \<and> (\<not> flag_help c \<and> (flag_status c \<or> flag_args c \<noteq> []) \<and> 1 \<le> flag_parallel c
        \<and> discovery c e = Inr (cwd, gitRepos) \<longrightarrow>
        (\<exists>code. main c e =
           Exit code (clear_line @
             print_results (map (task_result c e gitRepos cwd) (sort_key (env_finish e) gitRepos)))))"
proof -
  have 1: "main c (e\<lparr>env_finish := f\<rparr>) = main c (e\<lparr>env_finish := g\<rparr>)"
    by (simp add: main_finish_irrelevant)
  have 3: "\<exists>ls. sorted ls \<and> mset ls = mset rs \<and> print_results rs = concat (map (\<lambda>r. r @ [NL]) ls)"
    by (intro exI [of _ "sort rs"]) (simp add: print_results_def)
  have 4: "\<exists>code. main c e =
           Exit code (clear_line @
             print_results (map (task_result c e gitRepos cwd) (sort_key (env_finish e) gitRepos)))"
    if "\<not> flag_help c" "flag_status c \<or> flag_args c \<noteq> []" "1 \<le> flag_parallel c"
       "discovery c e = Inr (cwd, gitRepos)"
    using main_output [OF that] by (simp add: print_results_finish)
  show ?thesis using 1 3 4 print_results_mset [of rs rs'] by blast
qed

theorem printed_results_are_sorted_whatever_the_order_witness:
  "mset [''b: ok'', ''a: ok''] = mset [''a: ok'', ''b: ok'']
   \<and> print_results [''b: ok'', ''a: ok''] = ''a: ok'' @ [NL] @ ''b: ok'' @ [NL]
   \<and> print_results [''a: ok'', ''b: ok''] = ''a: ok'' @ [NL] @ ''b: ok'' @ [NL]
   \<and> main demo_config (demo_env\<lparr>env_finish := (\<lambda>path. 0)\<rparr>)
       = main demo_config (demo_env\<lparr>env_finish := length\<rparr>)
   \<and> discovery demo_config demo_env = Inr (''/work'', [''/work/abc'', ''/work/abcdefghijkl''])
   \<and> sort_key (env_finish demo_env) [''/work/abc'', ''/work/abcdefghijkl'']
       = [''/work/abcdefghijkl'', ''/work/abc'']
   \<and> (\<exists>code. main demo_config demo_env =
         Exit code (clear_line @ print_results
           (map (task_result demo_config demo_env [''/work/abc'', ''/work/abcdefghijkl''] ''/work'')
                [''/work/abcdefghijkl'', ''/work/abc''])))"
proof -
  have m: "mset [''b: ok'', ''a: ok''] = mset [''a: ok'', ''b: ok'']" by simp
  have p: "print_results [''a: ok'', ''b: ok''] = ''a: ok'' @ [NL] @ ''b: ok'' @ [NL]"
    by (simp add: print_results_def)
  have c: "\<not> flag_help demo_config" "flag_args demo_config \<noteq> []" "1 \<le> flag_parallel demo_config"
    by (simp_all add: demo_config_def)
  have o: "sort_key (env_finish demo_env) [''/work/abc'', ''/work/abcdefghijkl'']
       = [''/work/abcdefghijkl'', ''/work/abc'']"
    by (simp add: demo_env_def)
  note claim = printed_results_are_sorted_whatever_the_order
      [where c = demo_config and e = demo_env and f = "\<lambda>path. 0" and g = length
         and rs = "[''b: ok'', ''a: ok'']" and rs' = "[''a: ok'', ''b: ok'']"
         and cwd = "''/work''" and gitRepos = "[''/work/abc'', ''/work/abcdefghijkl'']"]
  from claim m have 1: "print_results [''b: ok'', ''a: ok''] = print_results [''a: ok'', ''b: ok'']"
    by blast
  from claim have 2: "main demo_config (demo_env\<lparr>env_finish := (\<lambda>path. 0)\<rparr>)
       = main demo_config (demo_env\<lparr>env_finish := length\<rparr>)"
    by blast
  from claim c demo_config_discovery have 3: "\<exists>code. main demo_config demo_env =
         Exit code (clear_line @ print_results
           (map (task_result demo_config demo_env [''/work/abc'', ''/work/abcdefghijkl''] ''/work'')
                (sort_key (env_finish demo_env) [''/work/abc'', ''/work/abcdefghijkl''])))"
    by blast
  show ?thesis using m p 1 2 3 demo_config_discovery o by simp
qed

section \<open>Status mode and the trailing command\<close>

lemma main_status_args: "flag_status c \<Longrightarrow> main (c\<lparr>flag_args := args\<rparr>) e = main c e"
proof (cases "flag_help c")
  case True
  then show ?thesis by (simp add: main_def)
next
  case False
  assume s: "flag_status c"
  have a: "\<not> flag_help c" "flag_status c \<or> flag_args c \<noteq> []" using False s by simp_all
  have a': "\<not> flag_help (c\<lparr>flag_args := args\<rparr>)"
    "flag_status (c\<lparr>flag_args := args\<rparr>) \<or> flag_args (c\<lparr>flag_args := args\<rparr>) \<noteq> []"
    using False s by simp_all
  have d: "discovery (c\<lparr>flag_args := args\<rparr>) e = discovery c e"
    by (simp add: discovery_def mkFilters_def split: prod.splits option.splits sum.splits)
  have r: "task_result (c\<lparr>flag_args := args\<rparr>) e = task_result c e"
    using s by (intro ext) (simp add: task_result_def applyAction_def)
  have b: "task_failed (c\<lparr>flag_args := args\<rparr>) e = task_failed c e"
    using s by (intro ext) (simp add: task_failed_def)
  show ?thesis
  proof (cases "discovery c e")
    case (Inl err)
    then show ?thesis by (simp add: main_after_discovery [OF a] main_after_discovery [OF a'] d)
  next
    case (Inr found)
    then show ?thesis
      by (cases found) (simp add: main_after_discovery [OF a] main_after_discovery [OF a'] d r b)
  qed
qed

lemma main_status_run: "flag_status c \<Longrightarrow> main c (e\<lparr>env_run := run\<rparr>) = main c e"
proof (cases "flag_help c")
  case True
  then show ?thesis by (simp add: main_def)
next
  case False
  assume s: "flag_status c"
  have a: "\<not> flag_help c" "flag_status c \<or> flag_args c \<noteq> []" using False s by simp_all
  have d: "discovery c (e\<lparr>env_run := run\<rparr>) = discovery c e"
    by (simp add: discovery_def split: prod.splits option.splits sum.splits)
  have r: "task_result c (e\<lparr>env_run := run\<rparr>) = task_result c e"
    using s by (intro ext) (simp add: task_result_def applyAction_def)
  have b: "task_failed c (e\<lparr>env_run := run\<rparr>) = task_failed c e"
    using s by (intro ext) (simp add: task_failed_def)
  show ?thesis
  proof (cases "discovery c e")
    case (Inl err)
    then show ?thesis by (simp add: main_after_discovery [OF a] d)
  next
    case (Inr found)
    then show ?thesis
      by (cases found) (simp add: main_after_discovery [OF a] d r b)
  qed
qed

lemma main_status_no_complaint:
  assumes "flag_status c"
  shows "main c e \<noteq> Exit code (''No command provided'' @ [NL])"
proof (cases "flag_help c")
  case True
  then show ?thesis by (simp add: main_def)
next
  case False
  have a: "\<not> flag_help c" "flag_status c \<or> flag_args c \<noteq> []" using False assms by simp_all
  show ?thesis
  proof (cases "discovery c e")
    case (Inl err)
    then show ?thesis
      by (simp add: main_after_discovery [OF a] split: prod.splits option.splits)
  next
    case (Inr found)
    then show ?thesis
      by (cases found) (simp add: main_after_discovery [OF a] clear_line_def)
  qed
qed

text \<open>
  Claim C10. In status mode the run is the same whatever the trailing arguments are,
  and the same whatever running a command would do, so the command is never run and
  nothing is reported about it; the run never ends with the message
  \<open>No command provided\<close>; and when it reaches its tasks (no \<open>-help\<close>, a parallelism
  limit of at least one, no fatal error) it exits with 0 after printing one status
  line for every discovered repository.
\<close>

theorem status_mode_ignores_the_command:
  assumes "flag_status c"
  shows "main (c\<lparr>flag_args := args\<rparr>) e = main c e
         \<and> main c (e\<lparr>env_run := run\<rparr>) = main c e
         \<and> (\<forall>code. main c e \<noteq> Exit code (''No command provided'' @ [NL]))
         \<and> (\<not> flag_help c \<and> 1 \<le> flag_parallel c \<and> discovery c e = Inr (cwd, gitRepos) \<longrightarrow>
              main c e =
                Exit 0 (clear_line @ print_results
                  (map (\<lambda>repo. render (longestName cwd gitRepos repo) (inspect (env_git e) repo cwd))
                       gitRepos)))"
proof -
  have "main c e =
          Exit 0 (clear_line @ print_results
            (map (\<lambda>repo. render (longestName cwd gitRepos repo) (inspect (env_git e) repo cwd))
                 gitRepos))"
    if "\<not> flag_help c" "1 \<le> flag_parallel c" "discovery c e = Inr (cwd, gitRepos)"
  proof -
    have "task_result c e gitRepos cwd
          = (\<lambda>repo. render (longestName cwd gitRepos repo) (inspect (env_git e) repo cwd))"
      using assms by (intro ext) (simp add: task_result_def applyAction_def statusRepo_def)
    moreover have "\<not> task_failed c e repo" for repo using assms by (simp add: task_failed_def)
    ultimately show ?thesis
      using main_output [OF that(1) _ that(2,3)] assms by simp
  qed
  then show ?thesis
    using main_status_args [OF assms] main_status_run [OF assms] main_status_no_complaint [OF assms]
    by blast
qed

theorem status_mode_ignores_the_command_witness:
  "flag_status (demo_config\<lparr>flag_status := True\<rparr>)
   \<and> flag_args (demo_config\<lparr>flag_status := True\<rparr>) = [''make'', ''test'']
   \<and> main (demo_config\<lparr>flag_status := True\<rparr>) demo_env
       = main (demo_config\<lparr>flag_status := True, flag_args := []\<rparr>) demo_env
   \<and> main (demo_config\<lparr>flag_status := True\<rparr>) demo_env
       = main (demo_config\<lparr>flag_status := True\<rparr>)
              (demo_env\<lparr>env_run := (\<lambda>path command. ([], Some (ExitError 1)))\<rparr>)
   \<and> main (demo_config\<lparr>flag_status := True\<rparr>) demo_env \<noteq> Exit 1 (''No command provided'' @ [NL])
   \<and> main (demo_config\<lparr>flag_status := True\<rparr>) demo_env
       = Exit 0 (clear_line @ print_results
           [render (longestName ''/work'' [''/work/abc'', ''/work/abcdefghijkl''] ''/work/abc'')
                   (inspect demo_git ''/work/abc'' ''/work''),
            render (longestName ''/work'' [''/work/abc'', ''/work/abcdefghijkl''] ''/work/abcdefghijkl'')
                   (inspect demo_git ''/work/abcdefghijkl'' ''/work'')])"
proof -
  let ?c = "demo_config\<lparr>flag_status := True\<rparr>"
  have s: "flag_status ?c" by simp
  have a: "flag_args ?c = [''make'', ''test'']" "\<not> flag_help ?c" "1 \<le> flag_parallel ?c"
    by (simp_all add: demo_config_def)
  have d: "discovery ?c demo_env = Inr (''/work'', [''/work/abc'', ''/work/abcdefghijkl''])"
    using demo_discovery [of ?c] by (simp add: demo_config_def)
  have g: "env_git demo_env = demo_git" by (simp add: demo_env_def)
  note claim = status_mode_ignores_the_command
      [OF s, where args = "[]" and e = demo_env
         and run = "\<lambda>path command. ([], Some (ExitError 1))"
         and cwd = "''/work''" and gitRepos = "[''/work/abc'', ''/work/abcdefghijkl'']"]
  from claim show ?thesis using s a d g by simp
qed

section \<open>The status inspector\<close>

text \<open>
  Claim C7. Each field that \<open>statusRepo\<close> computes for a repository is decided by its
  own query alone. The current branch is the trimmed output of \<open>rev-parse\<close>, and \<open>!\<close>
  followed by the text of the error when that query fails. The default branch is the
  trimmed output of \<open>config get\<close>, and \<open>main\<close> when that output is empty or the query
  fails. The remote sync state is what \<open>getRemoteSyncStatus\<close> returns, and \<open>SyncRemote\<close>
  when it returns an error. The repository is clean when \<open>status --porcelain\<close> prints
  nothing, and counts as not clean when the query fails. The other branches are the
  local branches that \<open>getLocalBranches\<close> returns (none when its query fails), without
  those equal to the current branch field, in sorted order; the line ends with one
  segment for each of them in that order. Independence: a second git that agrees with
  the first on the query of a field gives the same field, whatever it answers to the
  other queries (for the other branches: on the branch listing and on \<open>rev-parse\<close>);
  the relative path depends on no query. In every case \<open>statusRepo\<close> appends exactly
  one line to the results.
\<close>

theorem status_line_survives_failing_queries:
  "(let i = inspect git path cwd in
     currentBranch i =
       (case git path [''rev-parse'', ''--abbrev-ref'', ''HEAD''] of
          Inl err \<Rightarrow> ''!'' @ message err
        | Inr out \<Rightarrow> TrimSpace out)
     \<and> defaultBranch i =
       (case git path [''config'', ''get'', ''init.defaultbranch''] of
          Inl err \<Rightarrow> ''main''
        | Inr out \<Rightarrow> if TrimSpace out = [] then ''main'' else TrimSpace out)
     \<and> remoteSync i =
       (case getRemoteSyncStatus git path of (r, None) \<Rightarrow> r | (r, Some err) \<Rightarrow> SyncRemote)
     \<and> clean i =
       (case git path [''status'', ''--porcelain''] of
          Inl err \<Rightarrow> False
        | Inr out \<Rightarrow> out = [])
     \<and> (\<forall>err. git path [''rev-parse'', ''--abbrev-ref'', ''HEAD''] = Inl err \<longrightarrow>
        currentBranch i = ''!'' @ message err)
     \<and> (\<forall>err. git path [''config'', ''get'', ''init.defaultbranch''] = Inl err \<longrightarrow>
        defaultBranch i = ''main'')
     \<and> (snd (getRemoteSyncStatus git path) \<noteq> None \<longrightarrow> remoteSync i = SyncRemote)
     \<and> (\<forall>err. git path [''status'', ''--porcelain''] = Inl err \<longrightarrow> \<not> clean i)
     \<and> (\<forall>err. git path [''branch'', ''--format'', ''%(refname:short)''] = Inl err \<longrightarrow>
        localBranches i = [])
     \<and> sorted (localBranches i)
     \<and> mset (localBranches i)
         = filter_mset (\<lambda>b. b \<noteq> currentBranch i) (mset (fst (getLocalBranches git path)))
     \<and> (\<forall>git'.
          (git' path [''rev-parse'', ''--abbrev-ref'', ''HEAD'']
             = git path [''rev-parse'', ''--abbrev-ref'', ''HEAD''] \<longrightarrow>
           currentBranch (inspect git' path cwd) = currentBranch i)
          \<and> (git' path [''config'', ''get'', ''init.defaultbranch'']
             = git path [''config'', ''get'', ''init.defaultbranch''] \<longrightarrow>
           defaultBranch (inspect git' path cwd) = defaultBranch i)
          \<and> (git' path [''status'', ''--porcelain'', ''--branch'']
             = git path [''status'', ''--porcelain'', ''--branch''] \<longrightarrow>
           remoteSync (inspect git' path cwd) = remoteSync i)
          \<and> (git' path [''status'', ''--porcelain''] = git path [''status'', ''--porcelain''] \<longrightarrow>
           clean (inspect git' path cwd) = clean i)
          \<and> (git' path [''branch'', ''--format'', ''%(refname:short)'']
             = git path [''branch'', ''--format'', ''%(refname:short)'']
             \<and> git' path [''rev-parse'', ''--abbrev-ref'', ''HEAD'']
             = git path [''rev-parse'', ''--abbrev-ref'', ''HEAD''] \<longrightarrow>
           localBranches (inspect git' path cwd) = localBranches i)
          \<and> relPath (inspect git' path cwd) = relPath i)
     \<and> (\<exists>front. render width i = front @
           concat (map (\<lambda>name. '' ['' @ [ESC] @ ''[34m'' @ name @ [ESC] @ ''[0m]'') (localBranches i)))
     \<and> results (statusRepo git path cwd width st) = results st @ [render width i])"
proof -
  let ?i = "inspect git path cwd"
  have cur: "currentBranch (inspect g path cwd) =
       (case g path [''rev-parse'', ''--abbrev-ref'', ''HEAD''] of
          Inl err \<Rightarrow> ''!'' @ message err
        | Inr out \<Rightarrow> TrimSpace out)" for g
    by (simp add: inspect_def getCurrentBranch_def Let_def split: sum.splits)
  have dflt: "defaultBranch (inspect g path cwd) =
       (case g path [''config'', ''get'', ''init.defaultbranch''] of
          Inl err \<Rightarrow> ''main''
        | Inr out \<Rightarrow> if TrimSpace out = [] then ''main'' else TrimSpace out)" for g
    by (simp add: inspect_def getDefaultBranch_def Let_def split: sum.splits)
  have sync: "remoteSync (inspect g path cwd) =
       (case getRemoteSyncStatus g path of (r, None) \<Rightarrow> r | (r, Some err) \<Rightarrow> SyncRemote)" for g
    by (simp add: inspect_def Let_def)
  have cl: "clean (inspect g path cwd) =
       (case g path [''status'', ''--porcelain''] of
          Inl err \<Rightarrow> False
        | Inr out \<Rightarrow> out = [])" for g
    by (simp add: inspect_def isClean_def Let_def split: sum.splits)
  have others: "localBranches (inspect g path cwd) =
       sort (filter (\<lambda>b. b \<noteq> currentBranch (inspect g path cwd)) (fst (getLocalBranches g path)))" for g
    by (simp add: inspect_def Let_def)
  have rel: "relPath (inspect g path cwd) = relPath ?i" for g
    by (simp add: inspect_def Let_def)
  have 1: "currentBranch ?i = ''!'' @ message err"
    if "git path [''rev-parse'', ''--abbrev-ref'', ''HEAD''] = Inl err" for err
    using that by (simp add: cur)
  have 2: "defaultBranch ?i = ''main''"
    if "git path [''config'', ''get'', ''init.defaultbranch''] = Inl err" for err
    using that by (simp add: dflt)
  have 3: "remoteSync ?i = SyncRemote" if "snd (getRemoteSyncStatus git path) \<noteq> None"
    using that by (cases "getRemoteSyncStatus git path") (auto simp: sync)
  have 4: "\<not> clean ?i" if "git path [''status'', ''--porcelain''] = Inl err" for err
    using that by (simp add: cl)
  have nobr: "localBranches ?i = []"
    if "git path [''branch'', ''--format'', ''%(refname:short)''] = Inl err" for err
    using that by (simp add: others getLocalBranches_def)
  have 5: "sorted (localBranches ?i)" by (simp add: others)
  have 6: "mset (localBranches ?i)
         = filter_mset (\<lambda>b. b \<noteq> currentBranch ?i) (mset (fst (getLocalBranches git path)))"
    by (simp add: others)
  have i1: "currentBranch (inspect git' path cwd) = currentBranch ?i"
    if "git' path [''rev-parse'', ''--abbrev-ref'', ''HEAD'']
          = git path [''rev-parse'', ''--abbrev-ref'', ''HEAD'']" for git'
    using that by (simp add: cur)
  have i2: "defaultBranch (inspect git' path cwd) = defaultBranch ?i"
    if "git' path [''config'', ''get'', ''init.defaultbranch'']
          = git path [''config'', ''get'', ''init.defaultbranch'']" for git'
    using that by (simp add: dflt)
  have i3: "remoteSync (inspect git' path cwd) = remoteSync ?i"
    if "git' path [''status'', ''--porcelain'', ''--branch'']
          = git path [''status'', ''--porcelain'', ''--branch'']" for git'
    using that by (simp add: sync getRemoteSyncStatus_def)
  have i4: "clean (inspect git' path cwd) = clean ?i"
    if "git' path [''status'', ''--porcelain''] = git path [''status'', ''--porcelain'']" for git'
    using that by (simp add: cl)
  have i5: "localBranches (inspect git' path cwd) = localBranches ?i"
    if "git' path [''branch'', ''--format'', ''%(refname:short)'']
             = git path [''branch'', ''--format'', ''%(refname:short)'']
          \<and> git' path [''rev-parse'', ''--abbrev-ref'', ''HEAD'']
             = git path [''rev-parse'', ''--abbrev-ref'', ''HEAD'']" for git'
    using that by (simp add: others cur getLocalBranches_def)
  have 7: "\<exists>front. render width ?i = front @
           concat (map (\<lambda>name. '' ['' @ [ESC] @ ''[34m'' @ name @ [ESC] @ ''[0m]'') (localBranches ?i))"
    unfolding render_def Let_def by (metis append.assoc)
  have 8: "results (statusRepo git path cwd width st) = results st @ [render width ?i]"
    by (simp add: statusRepo_def)
  have ind: "\<forall>git'.
          (git' path [''rev-parse'', ''--abbrev-ref'', ''HEAD'']
             = git path [''rev-parse'', ''--abbrev-ref'', ''HEAD''] \<longrightarrow>
           currentBranch (inspect git' path cwd) = currentBranch ?i)
          \<and> (git' path [''config'', ''get'', ''init.defaultbranch'']
             = git path [''config'', ''get'', ''init.defaultbranch''] \<longrightarrow>
           defaultBranch (inspect git' path cwd) = defaultBranch ?i)
          \<and> (git' path [''status'', ''--porcelain'', ''--branch'']
             = git path [''status'', ''--porcelain'', ''--branch''] \<longrightarrow>
           remoteSync (inspect git' path cwd) = remoteSync ?i)
          \<and> (git' path [''status'', ''--porcelain''] = git path [''status'', ''--porcelain''] \<longrightarrow>
           clean (inspect git' path cwd) = clean ?i)
          \<and> (git' path [''branch'', ''--format'', ''%(refname:short)'']
             = git path [''branch'', ''--format'', ''%(refname:short)'']
             \<and> git' path [''rev-parse'', ''--abbrev-ref'', ''HEAD'']
             = git path [''rev-parse'', ''--abbrev-ref'', ''HEAD''] \<longrightarrow>
           localBranches (inspect git' path cwd) = localBranches ?i)
          \<and> relPath (inspect git' path cwd) = relPath ?i"
    using i1 i2 i3 i4 i5 rel by blast
  show ?thesis
    unfolding Let_def
    using cur [of git] dflt [of git] sync [of git] cl [of git] 1 2 3 4 nobr 5 6 ind 7 8
    by (intro conjI) blast+
qed


theorem status_line_survives_failing_queries_witness:
  "currentBranch (inspect failing_git ''/work/abc'' ''/work'') = ''!exit status 128''
   \<and> defaultBranch (inspect failing_git ''/work/abc'' ''/work'') = ''main''
   \<and> remoteSync (inspect failing_git ''/work/abc'' ''/work'') = SyncRemote
   \<and> \<not> clean (inspect failing_git ''/work/abc'' ''/work'')
   \<and> localBranches (inspect failing_git ''/work/abc'' ''/work'') = []
   \<and> results (statusRepo failing_git ''/work/abc'' ''/work'' 3 \<lparr>results = [], finalExitCode = 0\<rparr>)
       = [render 3 (inspect failing_git ''/work/abc'' ''/work'')]
   \<and> currentBranch (inspect partial_git ''/work/abc'' ''/work'') = ''!exit status 128''
   \<and> defaultBranch (inspect partial_git ''/work/abc'' ''/work'') = ''dev''
   \<and> remoteSync (inspect partial_git ''/work/abc'' ''/work'') = AheadRemote
   \<and> clean (inspect partial_git ''/work/abc'' ''/work'')
   \<and> localBranches (inspect partial_git ''/work/abc'' ''/work'') = [''dev'', ''fix'', ''topic'']
   \<and> clean (inspect (\<lambda>path args. if args = [''rev-parse'', ''--abbrev-ref'', ''HEAD'']
                                     then Inr (''dev'' @ [NL]) else partial_git path args)
                     ''/work/abc'' ''/work'')
       = clean (inspect partial_git ''/work/abc'' ''/work'')
   \<and> defaultBranch (inspect (\<lambda>path args. if args = [''rev-parse'', ''--abbrev-ref'', ''HEAD'']
                                     then Inr (''dev'' @ [NL]) else partial_git path args)
                     ''/work/abc'' ''/work'')
       = defaultBranch (inspect partial_git ''/work/abc'' ''/work'')
   \<and> currentBranch (inspect demo_git ''/work/abc'' ''/work'') = ''main''
   \<and> defaultBranch (inspect demo_git ''/work/abc'' ''/work'') = ''main''
   \<and> localBranches (inspect demo_git ''/work/abc'' ''/work'') = [''fix'', ''topic'']"
proof -
  let ?p = "''/work/abc''" and ?c = "''/work''"
  let ?st = "\<lparr>results = [], finalExitCode = 0\<rparr>"
  let ?g = "\<lambda>path args. if args = [''rev-parse'', ''--abbrev-ref'', ''HEAD'']
                        then Inr (''dev'' @ [NL]) else partial_git path args"
  have fromsorted: "ys = sort xs" if "sorted ys" "mset ys = mset xs" for xs ys :: "string list"
    using that by (metis properties_for_sort)
  have fields:
    "currentBranch (inspect git ?p ?c) =
       (case git ?p [''rev-parse'', ''--abbrev-ref'', ''HEAD''] of
          Inl err \<Rightarrow> ''!'' @ message err
        | Inr out \<Rightarrow> TrimSpace out)"
    "defaultBranch (inspect git ?p ?c) =
       (case git ?p [''config'', ''get'', ''init.defaultbranch''] of
          Inl err \<Rightarrow> ''main''
        | Inr out \<Rightarrow> if TrimSpace out = [] then ''main'' else TrimSpace out)"
    "remoteSync (inspect git ?p ?c) =
       (case getRemoteSyncStatus git ?p of (r, None) \<Rightarrow> r | (r, Some err) \<Rightarrow> SyncRemote)"
    "clean (inspect git ?p ?c) =
       (case git ?p [''status'', ''--porcelain''] of
          Inl err \<Rightarrow> False
        | Inr out \<Rightarrow> out = [])"
    "localBranches (inspect git ?p ?c)
       = sort (filter (\<lambda>b. b \<noteq> currentBranch (inspect git ?p ?c)) (fst (getLocalBranches git ?p)))"
    "results (statusRepo git ?p ?c 3 ?st) = results ?st @ [render 3 (inspect git ?p ?c)]"
    for git
  proof -
    note claim = status_line_survives_failing_queries [of git ?p ?c 3 ?st, unfolded Let_def]
    from claim show "currentBranch (inspect git ?p ?c) =
       (case git ?p [''rev-parse'', ''--abbrev-ref'', ''HEAD''] of
          Inl err \<Rightarrow> ''!'' @ message err
        | Inr out \<Rightarrow> TrimSpace out)"
      by blast
    from claim show "defaultBranch (inspect git ?p ?c) =
       (case git ?p [''config'', ''get'', ''init.defaultbranch''] of
          Inl err \<Rightarrow> ''main''
        | Inr out \<Rightarrow> if TrimSpace out = [] then ''main'' else TrimSpace out)"
      by blast
    from claim show "remoteSync (inspect git ?p ?c) =
       (case getRemoteSyncStatus git ?p of (r, None) \<Rightarrow> r | (r, Some err) \<Rightarrow> SyncRemote)"
      by blast
    from claim show "clean (inspect git ?p ?c) =
       (case git ?p [''status'', ''--porcelain''] of
          Inl err \<Rightarrow> False
        | Inr out \<Rightarrow> out = [])"
      by blast
    from claim have "sorted (localBranches (inspect git ?p ?c))"
      and "mset (localBranches (inspect git ?p ?c))
           = filter_mset (\<lambda>b. b \<noteq> currentBranch (inspect git ?p ?c))
               (mset (fst (getLocalBranches git ?p)))"
      by blast+
    then show "localBranches (inspect git ?p ?c)
       = sort (filter (\<lambda>b. b \<noteq> currentBranch (inspect git ?p ?c)) (fst (getLocalBranches git ?p)))"
      by (intro fromsorted) simp_all
    from claim show "results (statusRepo git ?p ?c 3 ?st) = results ?st @ [render 3 (inspect git ?p ?c)]"
      by blast
  qed
  have same:
    "git' ?p [''config'', ''get'', ''init.defaultbranch'']
          = git ?p [''config'', ''get'', ''init.defaultbranch''] \<Longrightarrow>
        defaultBranch (inspect git' ?p ?c) = defaultBranch (inspect git ?p ?c)"
    "git' ?p [''status'', ''--porcelain''] = git ?p [''status'', ''--porcelain''] \<Longrightarrow>
        clean (inspect git' ?p ?c) = clean (inspect git ?p ?c)"
    for git git'
    using status_line_survives_failing_queries [of git ?p ?c 3 ?st, unfolded Let_def]
    by blast+
  have t1: "TrimSpace [CHR ''d'', CHR ''e'', CHR ''v'', NL] = ''dev''" by code_simp
  have t2: "TrimSpace [CHR ''m'', CHR ''a'', CHR ''i'', CHR ''n'', NL] = ''main''" by code_simp
  have r0: "getRemoteSyncStatus failing_git ?p = (SyncRemote, Some (Error ''exit status 128''))"
    by (simp add: getRemoteSyncStatus_def failing_git_def)
  have r1: "getRemoteSyncStatus partial_git ?p = (AheadRemote, None)" by code_simp
  have b0: "fst (getLocalBranches failing_git ?p) = []"
    by (simp add: getLocalBranches_def failing_git_def)
  have b1: "fst (getLocalBranches partial_git ?p) = [''topic'', ''dev'', ''fix'']" by code_simp
  have b2: "fst (getLocalBranches demo_git ?p) = [''topic'', ''main'', ''fix'']" by code_simp
  have F: "currentBranch (inspect failing_git ?p ?c) = ''!exit status 128''"
    "defaultBranch (inspect failing_git ?p ?c) = ''main''"
    "remoteSync (inspect failing_git ?p ?c) = SyncRemote"
    "\<not> clean (inspect failing_git ?p ?c)"
    "localBranches (inspect failing_git ?p ?c) = []"
    "results (statusRepo failing_git ?p ?c 3 ?st) = [render 3 (inspect failing_git ?p ?c)]"
    unfolding fields r0 b0 by (simp_all add: failing_git_def)
  have P: "currentBranch (inspect partial_git ?p ?c) = ''!exit status 128''"
    "defaultBranch (inspect partial_git ?p ?c) = ''dev''"
    "remoteSync (inspect partial_git ?p ?c) = AheadRemote"
    "clean (inspect partial_git ?p ?c)"
    unfolding fields r1 by (simp_all add: partial_git_def t1)
  have P2: "localBranches (inspect partial_git ?p ?c) = [''dev'', ''fix'', ''topic'']"
    unfolding fields(5) P(1) b1 by simp
  have P3: "clean (inspect ?g ?p ?c) = clean (inspect partial_git ?p ?c)"
    "defaultBranch (inspect ?g ?p ?c) = defaultBranch (inspect partial_git ?p ?c)"
    by (rule same, simp)+
  have D: "currentBranch (inspect demo_git ?p ?c) = ''main''"
    "defaultBranch (inspect demo_git ?p ?c) = ''main''"
    unfolding fields by (simp_all add: demo_git_def t2)
  have D2: "localBranches (inspect demo_git ?p ?c) = [''fix'', ''topic'']"
    unfolding fields(5) D(1) b2 by simp
  show ?thesis using F P P2 P3 D D2 by simp
qed

section \<open>The width of the path column\<close>

lemma dir_prefix_below: "prefix (dir_prefix path) (dir_prefix (Join path name))"
  by (auto simp: dir_prefix_def Join_def append_eq_Cons_conv)

lemma repos_below_prefix:
  "q \<in> set (repos_below filters path node) \<Longrightarrow> reach path q"
proof (induction filters path node rule: repos_below.induct)
  case (1 filters path readable entries)
  show ?case
  proof (cases "isGitRepo (Dir readable entries)")
    case True
    with "1.prems" show ?thesis by (auto simp: reach_def split: if_splits)
  next
    case False
    with "1.prems" obtain name child where
      e: "(name, child) \<in> set entries" and q: "q \<in> set (repos_below filters (Join path name) child)"
      by auto
    from "1.IH" [OF False e refl q] have "reach (Join path name) q" .
    then have "prefix (dir_prefix path) q"
      unfolding reach_def
    proof
      assume "q = Join path name"
      then show ?thesis by (simp add: Join_dir_prefix)
    next
      assume "prefix (dir_prefix (Join path name)) q"
      then show ?thesis using dir_prefix_below prefix_order.trans by blast
    qed
    then show ?thesis by (simp add: reach_def)
  qed
qed simp_all

lemma Rel_reach: "reach cwd q \<Longrightarrow> snd (Rel cwd q) = None"
  by (auto simp: reach_def Rel_def)

lemma discover_Rel:
  assumes "discover filters cwd root = Inr gitRepos" and "repo \<in> set gitRepos"
  shows "snd (Rel cwd repo) = None"
  using discover_Inr(2) [OF assms(1)] assms(2) repos_below_prefix Rel_reach by simp

lemma relPath_inspect:
  "snd (Rel cwd repo) = None \<Longrightarrow> relPath (inspect git repo cwd) = fst (Rel cwd repo)"
  by (cases "Rel cwd repo") (simp add: inspect_def Let_def)

lemma fold_longest:
  "fold (\<lambda>x (longest :: nat). if f x > longest then f x else longest) xs a = Max (insert a (f ` set xs))"
proof (induction xs arbitrary: a)
  case Nil
  show ?case by simp
next
  case (Cons x xs)
  have "Max (insert (if f x > a then f x else a) (f ` set xs)) = Max (insert a (insert (f x) (f ` set xs)))"
    by (cases "f ` set xs = {}") (auto simp: max_def)
  then show ?case by (simp add: Cons.IH)
qed

lemma longestName_Max:
  assumes "\<forall>repo \<in> set gitRepos. snd (Rel cwd repo) = None" and "gitRepos \<noteq> []"
  shows "longestName cwd gitRepos path = Max ((\<lambda>repo. length (fst (Rel cwd repo))) ` set gitRepos)"
proof -
  have "longestName cwd gitRepos path
        = fold (\<lambda>repo longest. if length (fst (Rel cwd repo)) > longest
                                then length (fst (Rel cwd repo)) else longest) gitRepos 0"
    unfolding longestName_def
    using assms(1) by (intro fold_cong) (auto simp: Let_def split: prod.splits option.splits)
  also have "\<dots> = Max (insert 0 ((\<lambda>repo. length (fst (Rel cwd repo))) ` set gitRepos))"
    by (rule fold_longest)
  also have "\<dots> = Max ((\<lambda>repo. length (fst (Rel cwd repo))) ` set gitRepos)"
    using assms(2) by (subst Max_insert) auto
  finally show ?thesis .
qed

lemma RuneCountInString_le: "RuneCountInString s \<le> length s"
proof (induction s rule: RuneCountInString.induct)
  case 1
  show ?case by simp
next
  case (2 c rest)
  have "length (drop (rune_size c rest - 1) rest) \<le> length rest" by simp
  with "2.IH" show ?case by simp
qed

lemma demo_relPath:
  "relPath (inspect git ''/work/abc'' ''/work'') = ''abc''"
  "relPath (inspect git ''/work/abcdefghijkl'' ''/work'') = ''abcdefghijkl''"
  by (simp_all add: inspect_def Rel_def dir_prefix_def Let_def)

text \<open>
  Claim C8. Let \<open>gitRepos\<close> be the result of a successful discovery and let the run be
  in status mode. For every repository of the list, the width that the status action
  computes is the same number: the largest length of a relative path over all of
  \<open>gitRepos\<close>. It depends neither on the task nor on the results collected so far,
  so the program's computing it again in each task gives what computing it once before
  the first line would. The action appends the line rendered with that width, and the
  line starts with the relative path followed by blanks up to that width (counted in
  runes, as \<open>fmt\<close> does), between the two escape sequences. The witness is the
  scenario with relative paths of 3 and 12 bytes: both lines use the width 12.
\<close>

theorem status_column_is_longest_relative_path:
  assumes "discover filters cwd root = Inr gitRepos" and "repo \<in> set gitRepos"
    and "flag_status c"
  shows "(let width = Max ((\<lambda>r. length (relPath (inspect (env_git e) r cwd))) ` set gitRepos) in
          longestName cwd gitRepos repo = width
          \<and> applyAction c e gitRepos repo cwd st =
              Some (st\<lparr>results := results st @ [render width (inspect (env_git e) repo cwd)]\<rparr>)
          \<and> (\<exists>rest. render width (inspect (env_git e) repo cwd) =
                [ESC] @ ''[1m'' @ relPath (inspect (env_git e) repo cwd)
                @ replicate (width - RuneCountInString (relPath (inspect (env_git e) repo cwd))) CHR '' ''
                @ [ESC] @ ''[0m'' @ rest)
          \<and> RuneCountInString (relPath (inspect (env_git e) repo cwd)) \<le> width)"
proof -
  let ?rel = "\<lambda>r. relPath (inspect (env_git e) r cwd)"
  let ?W = "Max ((\<lambda>r. length (?rel r)) ` set gitRepos)"
  have ok: "\<forall>r \<in> set gitRepos. snd (Rel cwd r) = None"
    using discover_Rel [OF assms(1)] by blast
  then have rel: "?rel r = fst (Rel cwd r)" if "r \<in> set gitRepos" for r
    using that relPath_inspect by blast
  have ne: "gitRepos \<noteq> []" using assms(2) by auto
  have "(\<lambda>r. length (?rel r)) ` set gitRepos = (\<lambda>r. length (fst (Rel cwd r))) ` set gitRepos"
    using rel by (intro image_cong) auto
  then have 1: "longestName cwd gitRepos repo = ?W"
    using longestName_Max [OF ok ne] by simp
  have 2: "applyAction c e gitRepos repo cwd st =
              Some (st\<lparr>results := results st @ [render ?W (inspect (env_git e) repo cwd)]\<rparr>)"
    using assms(3) 1 by (simp add: applyAction_def statusRepo_def)
  have 3: "\<exists>rest. render ?W (inspect (env_git e) repo cwd) =
                [ESC] @ ''[1m'' @ ?rel repo
                @ replicate (?W - RuneCountInString (?rel repo)) CHR '' ''
                @ [ESC] @ ''[0m'' @ rest"
    by (simp add: render_def pad_right_def Let_def)
  have "length (?rel repo) \<le> ?W" using assms(2) by (intro Max_ge) auto
  then have 4: "RuneCountInString (?rel repo) \<le> ?W"
    using RuneCountInString_le [of "?rel repo"] by linarith
  show ?thesis unfolding Let_def using 1 2 3 4 by blast
qed

theorem status_column_is_longest_relative_path_witness:
  "discover [] ''/work'' demo_tree = Inr [''/work/abc'', ''/work/abcdefghijkl'']
   \<and> length (relPath (inspect demo_git ''/work/abc'' ''/work'')) = 3
   \<and> length (relPath (inspect demo_git ''/work/abcdefghijkl'' ''/work'')) = 12
   \<and> longestName ''/work'' [''/work/abc'', ''/work/abcdefghijkl''] ''/work/abc'' = 12
   \<and> longestName ''/work'' [''/work/abc'', ''/work/abcdefghijkl''] ''/work/abcdefghijkl'' = 12
   \<and> applyAction (demo_config\<lparr>flag_status := True\<rparr>) demo_env
         [''/work/abc'', ''/work/abcdefghijkl''] ''/work/abc'' ''/work''
         \<lparr>results = [], finalExitCode = 0\<rparr>
       = Some \<lparr>results = [render 12 (inspect demo_git ''/work/abc'' ''/work'')], finalExitCode = 0\<rparr>
   \<and> applyAction (demo_config\<lparr>flag_status := True\<rparr>) demo_env
         [''/work/abc'', ''/work/abcdefghijkl''] ''/work/abcdefghijkl'' ''/work''
         \<lparr>results = [], finalExitCode = 0\<rparr>
       = Some \<lparr>results = [render 12 (inspect demo_git ''/work/abcdefghijkl'' ''/work'')],
               finalExitCode = 0\<rparr>"
proof -
  let ?repos = "[''/work/abc'', ''/work/abcdefghijkl'']"
  let ?c = "demo_config\<lparr>flag_status := True\<rparr>"
  have d: "discover [] ''/work'' demo_tree = Inr ?repos"
    by (simp add: demo_tree_def discover_def Walk_def walkFn_def isGitRepo_def Join_def)
  have s: "flag_status ?c" by simp
  have g: "env_git demo_env = demo_git" by (simp add: demo_env_def)
  have w: "Max ((\<lambda>r. length (relPath (inspect demo_git r ''/work''))) ` set ?repos) = 12"
    by (simp add: demo_relPath)
  note a = status_column_is_longest_relative_path
      [OF d _ s, where repo = "''/work/abc''" and e = demo_env
         and st = "\<lparr>results = [], finalExitCode = 0\<rparr>"]
  note b = status_column_is_longest_relative_path
      [OF d _ s, where repo = "''/work/abcdefghijkl''" and e = demo_env
         and st = "\<lparr>results = [], finalExitCode = 0\<rparr>"]
  from a have a': "longestName ''/work'' ?repos ''/work/abc'' = 12
      \<and> applyAction ?c demo_env ?repos ''/work/abc'' ''/work'' \<lparr>results = [], finalExitCode = 0\<rparr>
       = Some \<lparr>results = [render 12 (inspect demo_git ''/work/abc'' ''/work'')], finalExitCode = 0\<rparr>"
    unfolding Let_def g w by simp
  from b have b': "longestName ''/work'' ?repos ''/work/abcdefghijkl'' = 12
      \<and> applyAction ?c demo_env ?repos ''/work/abcdefghijkl'' ''/work'' \<lparr>results = [], finalExitCode = 0\<rparr>
       = Some \<lparr>results = [render 12 (inspect demo_git ''/work/abcdefghijkl'' ''/work'')], finalExitCode = 0\<rparr>"
    unfolding Let_def g w by simp
  show ?thesis using d a' b' by (simp add: demo_relPath)
qed

section \<open>Remote sync detection\<close>

text \<open>
  Claim C4. Let the porcelain branch-status query succeed with an output whose first line
  is \<open>line\<close> (the output is \<open>line\<close>, or \<open>line\<close> followed by a newline and anything).
  Then \<open>getRemoteSyncStatus\<close> is decided by \<open>line\<close> alone: without the prefix \<open>##\<close> it
  returns an error, and the field of the caller \<open>statusRepo\<close> is \<open>SyncRemote\<close>; with
  the prefix, a line that contains \<open>[behind\<close> gives \<open>BehindRemote\<close>, otherwise a line
  that contains \<open>[ahead\<close> gives \<open>AheadRemote\<close>, otherwise the result is \<open>SyncRemote\<close>;
  and the field of the caller is that result.
\<close>

theorem getRemoteSyncStatus_first_line:
  assumes "git path [''status'', ''--porcelain'', ''--branch''] = Inr (line @ rest)"
    and "NL \<notin> set line" and "rest = [] \<or> hd rest = NL"
  shows "getRemoteSyncStatus git path =
           (if \<not> prefix ''##'' line
            then (SyncRemote,
                  Some (Error (''first line `'' @ line @ ''` does not start with expected `##`'')))
            else if sublist ''[behind'' line then (BehindRemote, None)
            else if sublist ''[ahead'' line then (AheadRemote, None)
            else (SyncRemote, None))
         \<and> remoteSync (inspect git path cwd) =
           (if \<not> prefix ''##'' line then SyncRemote
            else if sublist ''[behind'' line then BehindRemote
            else if sublist ''[ahead'' line then AheadRemote
            else SyncRemote)"
proof -
  have first: "hd (SplitN2 (line @ rest)) = line"
    using assms(2,3) by (rule SplitN2_first)
  have caller: "remoteSync (inspect git path cwd) =
          (case getRemoteSyncStatus git path of (r, None) \<Rightarrow> r | (r, Some err) \<Rightarrow> SyncRemote)"
    by (simp add: inspect_def Let_def)
  show ?thesis
    unfolding caller
    by (simp add: getRemoteSyncStatus_def assms(1) first HasPrefix_prefix Contains_sublist
             del: sublist_code)
qed

theorem getRemoteSyncStatus_first_line_witness:
  "getRemoteSyncStatus
     (\<lambda>path args. Inr (''## feature...origin/feature [behind 2]'' @ [NL] @ '' M main.go'' @ [NL]))
     ''/work/repo'' = (BehindRemote, None)
   \<and> remoteSync (inspect
        (\<lambda>path args. Inr (''## feature...origin/feature [behind 2]'' @ [NL] @ '' M main.go'' @ [NL]))
        ''/work/repo'' ''/work'') = BehindRemote"
  using getRemoteSyncStatus_first_line
          [of "\<lambda>path args. Inr (''## feature...origin/feature [behind 2]'' @ [NL] @ '' M main.go'' @ [NL])"
              "''/work/repo''" "''## feature...origin/feature [behind 2]''"
              "[NL] @ '' M main.go'' @ [NL]" "''/work''"]
  by (simp add: sublist_Cons_right)

end
